theory Spec2Isabelle
  imports Complex_Main "HOL-Library.Sublist"
begin

section \<open>Strings of the browser and server runtime\<close>

text \<open>
  For the parser, the seek mapping, the proxy and the state of the component, a JavaScript
  string is modelled as a \<^typ>\<open>string\<close>, one \<^typ>\<open>char\<close> per code unit, so that part of the
  model covers the code units 0 to 255 (ASCII and Latin-1). The character classes below are
  the ECMAScript ones restricted to that range: \<open>\d\<close> is the ten ASCII digits, \<open>\s\<close> and the
  characters removed by \<open>trim()\<close> are TAB, LF, VT, FF, CR, SPACE and NBSP, and \<open>.\<close> is every
  character but the line terminators LF and CR. The search filter, whose lower-casing depends
  on characters beyond that range, is modelled over UTF-16 code units further below.
\<close>

definition is_digit :: "char \<Rightarrow> bool" where
  "is_digit c = (c \<in> set ''0123456789'')"

definition is_space :: "char \<Rightarrow> bool" where
  "is_space c =
     (c \<in> set [CHR 0x09, CHR 0x0A, CHR 0x0B, CHR 0x0C, CHR 0x0D, CHR 0x20, CHR 0xA0])"

definition is_line_terminator :: "char \<Rightarrow> bool" where
  "is_line_terminator c = (c = CHR 0x0A \<or> c = CHR 0x0D)"

text \<open>\<open>String.prototype.trim\<close>: white space is removed from both ends.\<close>

definition trim :: "string \<Rightarrow> string" where
  "trim s = rev (dropWhile is_space (rev (dropWhile is_space s)))"

text \<open>
  \<open>String.prototype.split\<close> with a one-character separator: the empty string gives one empty
  part, and \<open>n\<close> separators give \<open>n + 1\<close> parts.
\<close>

fun split_on :: "char \<Rightarrow> string \<Rightarrow> string list" where
  "split_on sep [] = [[]]"
| "split_on sep (c # cs) =
     (if c = sep then [] # split_on sep cs
      else (case split_on sep cs of p # ps \<Rightarrow> (c # p) # ps | [] \<Rightarrow> [[c]]))"

text \<open>\<open>String.prototype.startsWith\<close> and \<open>String.prototype.includes\<close>, for any code units.\<close>

definition startsWith :: "'u list \<Rightarrow> 'u list \<Rightarrow> bool" where
  "startsWith s q = (take (length q) s = q)"

fun includes_str :: "'u list \<Rightarrow> 'u list \<Rightarrow> bool" where
  "includes_str [] q = (q = [])"
| "includes_str (c # cs) q = (startsWith (c # cs) q \<or> includes_str cs q)"


section \<open>The transcript parser of \<open>handleTranscribe\<close>\<close>

text \<open>
  A chunk holds two strings. The record is parametric in the type \<open>'u\<close> of the code units, so
  that it serves the parser (at \<^typ>\<open>char\<close>) and the search filter (at UTF-16 code units).
\<close>

record 'u TranscriptionChunk =
  time :: "'u list"
  "text" :: "'u list"

text \<open>
  The regular expression \<open>/\[(\d{1,2}:\d{2}(?::\d{2})?)\]\s*(.*)/\<close> is run as a backtracking
  matcher does: each piece is a function from the rest of the line to the captures, a greedy
  choice tries its longer alternative first and falls back to the shorter one when the rest
  of the pattern fails. The result is the pair of capture groups 1 and 2.
\<close>

definition digits2 :: "string \<Rightarrow> (string \<times> string) option" where
  \<comment> \<open>\<open>\d{2}\<close>: the two digits and what follows them\<close>
  "digits2 s =
     (case s of
        a # b # r \<Rightarrow> if is_digit a \<and> is_digit b then Some ([a, b], r) else None
      | _ \<Rightarrow> None)"

definition colon_digits2 :: "string \<Rightarrow> (string \<times> string) option" where
  \<comment> \<open>\<open>:\d{2}\<close>\<close>
  "colon_digits2 s =
     (case s of c # r \<Rightarrow> if c = CHR '':'' then digits2 r else None | [] \<Rightarrow> None)"

definition rest_capture :: "string \<Rightarrow> string" where
  \<comment> \<open>\<open>\s*(.*)\<close>: all white space is skipped, then group 2 runs to the first line terminator\<close>
  "rest_capture s = takeWhile (\<lambda>c. \<not> is_line_terminator c) (dropWhile is_space s)"

definition close_bracket :: "string \<Rightarrow> string \<Rightarrow> (string \<times> string) option" where
  \<comment> \<open>\<open>\]\s*(.*)\<close>, with group 1 complete\<close>
  "close_bracket t s =
     (case s of
        c # r \<Rightarrow> if c = CHR '']'' then Some (t, rest_capture r) else None
      | [] \<Rightarrow> None)"

definition after_minutes :: "string \<Rightarrow> string \<Rightarrow> (string \<times> string) option" where
  \<comment> \<open>\<open>(?::\d{2})?\]\s*(.*)\<close>: the optional group is tried first\<close>
  "after_minutes t s =
     (case (case colon_digits2 s of
              Some (sec, r) \<Rightarrow> close_bracket (t @ '':'' @ sec) r
            | None \<Rightarrow> None) of
        Some m \<Rightarrow> Some m
      | None \<Rightarrow> close_bracket t s)"

definition after_first :: "string \<Rightarrow> string \<Rightarrow> (string \<times> string) option" where
  \<comment> \<open>\<open>:\d{2}(?::\d{2})?\]\s*(.*)\<close>, after the first number \<open>h\<close>\<close>
  "after_first h s =
     (case colon_digits2 s of
        Some (m, r) \<Rightarrow> after_minutes (h @ '':'' @ m) r
      | None \<Rightarrow> None)"

definition match_here :: "string \<Rightarrow> (string \<times> string) option" where
  \<comment> \<open>the whole pattern at the start of \<open>s\<close>; \<open>\d{1,2}\<close> tries two digits, then one\<close>
  "match_here s =
     (case s of
        c # a # r \<Rightarrow>
          if c = CHR ''['' \<and> is_digit a then
            (case (case r of
                     b # r' \<Rightarrow> if is_digit b then after_first [a, b] r' else None
                   | [] \<Rightarrow> None) of
               Some m \<Rightarrow> Some m
             | None \<Rightarrow> after_first [a] r)
          else None
      | _ \<Rightarrow> None)"

text \<open>\<open>line.match(timeRegex)\<close>: the pattern is not anchored, the leftmost match wins.\<close>

fun timeRegex_exec :: "string \<Rightarrow> (string \<times> string) option" where
  "timeRegex_exec [] = None"
| "timeRegex_exec (c # cs) =
     (case match_here (c # cs) of Some m \<Rightarrow> Some m | None \<Rightarrow> timeRegex_exec cs)"

text \<open>The body of the loop over the lines, on the list \<open>chunks\<close> built so far.\<close>

definition push_line ::
  "char TranscriptionChunk list \<Rightarrow> string \<Rightarrow> char TranscriptionChunk list" where
  "push_line chunks line =
     (case timeRegex_exec line of
        Some (t, x) \<Rightarrow> chunks @ [\<lparr>time = t, text = x\<rparr>]
      | None \<Rightarrow>
          if trim line \<noteq> [] then
            (case rev chunks of
               l # earlier \<Rightarrow> rev earlier @ [l\<lparr>text := text l @ '' '' @ trim line\<rparr>]
             | [] \<Rightarrow> [\<lparr>time = ''00:00'', text = trim line\<rparr>])
          else chunks)"

definition parse_chunks :: "string \<Rightarrow> char TranscriptionChunk list" where
  "parse_chunks txt = foldl push_line [] (split_on CHR 0x0A txt)"


subsection \<open>The line pattern as the specification words it\<close>

text \<open>
  A timestamp is \<open>D{1,2}:D{2}\<close> or \<open>D{1,2}:D{2}:D{2}\<close>: two or three runs of digits between
  colons, the first of one or two digits, the others of two.
\<close>

definition digit_run :: "nat \<Rightarrow> string \<Rightarrow> bool" where
  "digit_run n s = (length s = n \<and> list_all is_digit s)"

definition is_timestamp :: "string \<Rightarrow> bool" where
  "is_timestamp t =
     (case split_on CHR '':'' t of
        [h, m] \<Rightarrow> (digit_run 1 h \<or> digit_run 2 h) \<and> digit_run 2 m
      | [h, m, s] \<Rightarrow> (digit_run 1 h \<or> digit_run 2 h) \<and> digit_run 2 m \<and> digit_run 2 s
      | _ \<Rightarrow> False)"

text \<open>
  A bracketed timestamp at the very start of \<open>s\<close>: the timestamp and what follows the
  closing bracket.
\<close>

definition bracketed_timestamp :: "string \<Rightarrow> (string \<times> string) option" where
  "bracketed_timestamp s =
     (case s of
        [] \<Rightarrow> None
      | c # r \<Rightarrow>
          if c = CHR ''['' \<and> CHR '']'' \<in> set r \<and> is_timestamp (takeWhile (\<lambda>d. d \<noteq> CHR '']'') r)
          then Some (takeWhile (\<lambda>d. d \<noteq> CHR '']'') r, tl (dropWhile (\<lambda>d. d \<noteq> CHR '']'') r))
          else None)"

text \<open>
  The specified line pattern: optional leading white space, a bracketed timestamp, optional
  white space and the remainder; the chunk has the timestamp as its time and the remainder,
  trimmed, as its text.
\<close>

definition spec_line_pattern :: "string \<Rightarrow> (string \<times> string) option" where
  "spec_line_pattern line =
     (case bracketed_timestamp (dropWhile is_space line) of
        Some (t, remainder) \<Rightarrow> Some (t, trim remainder)
      | None \<Rightarrow> None)"


section \<open>Seeking to a chunk (the timestamp button)\<close>

text \<open>
  \<open>Number\<close> is modelled on the strings of one to twelve decimal digits, where the value and
  the arithmetic of the handler are exact in double precision; on every other string the
  model gives \<open>None\<close>, which stands for a conversion that is not modelled (and not for NaN).
\<close>

definition digit_value :: "char \<Rightarrow> nat" where
  "digit_value c = of_char c - 48"

definition decimal :: "string \<Rightarrow> bool" where
  "decimal s = (s \<noteq> [] \<and> length s \<le> 12 \<and> list_all is_digit s)"

definition decimal_value :: "string \<Rightarrow> nat" where
  "decimal_value s = foldl (\<lambda>n c. 10 * n + digit_value c) 0 s"

definition Number :: "string \<Rightarrow> nat option" where
  "Number s = (if decimal s then Some (decimal_value s) else None)"

text \<open>
  \<open>chunk.time.split(':').map(Number)\<close> and the dispatch on \<open>parts.length\<close>; \<open>timeInSeconds\<close>
  starts at 0 and keeps that value when the length is neither 3 nor 2.
\<close>

definition timeInSeconds :: "string \<Rightarrow> nat option" where
  "timeInSeconds t =
     (let parts = map Number (split_on CHR '':'' t)
      in if length parts = 3 then
           (case parts of
              [Some a, Some b, Some c] \<Rightarrow> Some (a * 3600 + b * 60 + c)
            | _ \<Rightarrow> None)
         else if length parts = 2 then
           (case parts of [Some a, Some b] \<Rightarrow> Some (a * 60 + b) | _ \<Rightarrow> None)
         else Some 0)"


section \<open>The search filter\<close>

text \<open>
  The filter compares lower-cased strings, and \<open>String.prototype.toLowerCase\<close> is not a map
  over single code units: it follows the Unicode case mappings, under which the capital sigma
  becomes the final or the medial small sigma according to its neighbours, and the capital I
  with a dot above becomes two code units. So the filter is modelled over UTF-16 code units,
  as natural numbers. \<open>toLowerCase\<close> is modelled on the strings whose code units are 0 to 255,
  U+0130, or the Greek letters U+0391 to U+03A9 and U+03B1 to U+03C9; on every other string
  the model gives \<open>None\<close>, which stands for a conversion that is not modelled.
\<close>

type_synonym utf16 = "nat list"

definition modelled_unit :: "nat \<Rightarrow> bool" where
  "modelled_unit u =
     (u < 256 \<or> u = 304 \<or> (913 \<le> u \<and> u \<le> 929) \<or> (931 \<le> u \<and> u \<le> 937) \<or> (945 \<le> u \<and> u \<le> 969))"

text \<open>
  The Unicode properties Cased and Case_Ignorable on the modelled code units: the letters
  (with the ordinal indicators and the micro sign), and the apostrophe, full stop, colon,
  circumflex, grave accent, diaeresis, soft hyphen, macron, acute accent, middle dot and
  cedilla.
\<close>

definition cased :: "nat \<Rightarrow> bool" where
  "cased u =
     ((65 \<le> u \<and> u \<le> 90) \<or> (97 \<le> u \<and> u \<le> 122) \<or> u = 170 \<or> u = 181 \<or> u = 186 \<or>
      (192 \<le> u \<and> u \<le> 214) \<or> (216 \<le> u \<and> u \<le> 246) \<or> (248 \<le> u \<and> u \<le> 255) \<or> u = 304 \<or>
      (913 \<le> u \<and> u \<le> 929) \<or> (931 \<le> u \<and> u \<le> 937) \<or> (945 \<le> u \<and> u \<le> 969))"

definition case_ignorable :: "nat \<Rightarrow> bool" where
  "case_ignorable u = (u \<in> set [39, 46, 58, 94, 96, 168, 173, 175, 180, 183, 184])"

text \<open>
  The condition Final_Sigma: a cased letter stands before the sigma, with nothing but
  case-ignorable characters between, and no cased letter follows it in that way.
\<close>

definition final_sigma :: "utf16 \<Rightarrow> utf16 \<Rightarrow> bool" where
  "final_sigma front back =
     ((case dropWhile case_ignorable (rev front) of [] \<Rightarrow> False | u # _ \<Rightarrow> cased u) \<and>
      \<not> (case dropWhile case_ignorable back of [] \<Rightarrow> False | u # _ \<Rightarrow> cased u))"

text \<open>
  The lower case of one code unit between \<open>front\<close> and \<open>back\<close>: the sigma U+03A3, the
  dotted capital I U+0130, the capitals A to Z, those of Latin-1 (U+00C0 to U+00DE without
  the multiplication sign) and the other Greek capitals, which move up by 32; every other
  modelled code unit stays.
\<close>

definition lower_unit :: "utf16 \<Rightarrow> nat \<Rightarrow> utf16 \<Rightarrow> utf16" where
  "lower_unit front u back =
     (if u = 931 then (if final_sigma front back then [962] else [963])
      else if u = 304 then [105, 775]
      else if (65 \<le> u \<and> u \<le> 90) \<or> (192 \<le> u \<and> u \<le> 214) \<or> (216 \<le> u \<and> u \<le> 222) \<or>
              (913 \<le> u \<and> u \<le> 929) \<or> (932 \<le> u \<and> u \<le> 937)
           then [u + 32]
      else [u])"

fun lower_from :: "utf16 \<Rightarrow> utf16 \<Rightarrow> utf16" where
  "lower_from front [] = []"
| "lower_from front (u # back) = lower_unit front u back @ lower_from (front @ [u]) back"

definition toLowerCase :: "utf16 \<Rightarrow> utf16 option" where
  "toLowerCase s = (if list_all modelled_unit s then Some (lower_from [] s) else None)"

text \<open>
  The callback of the filter, \<open>chunk.text.toLowerCase().includes(searchQuery.toLowerCase())\<close>,
  and \<open>Array.prototype.filter\<close> with a callback whose answer may lie outside the model.
\<close>

definition chunk_matches :: "utf16 \<Rightarrow> nat TranscriptionChunk \<Rightarrow> bool option" where
  "chunk_matches searchQuery chunk =
     (case toLowerCase (text chunk) of
        None \<Rightarrow> None
      | Some t \<Rightarrow>
          (case toLowerCase searchQuery of
             None \<Rightarrow> None
           | Some q \<Rightarrow> Some (includes_str t q)))"

fun filter_modelled :: "('a \<Rightarrow> bool option) \<Rightarrow> 'a list \<Rightarrow> 'a list option" where
  "filter_modelled p [] = Some []"
| "filter_modelled p (x # xs) =
     (case p x of
        None \<Rightarrow> None
      | Some keep \<Rightarrow>
          (case filter_modelled p xs of
             None \<Rightarrow> None
           | Some ys \<Rightarrow> Some (if keep then x # ys else ys)))"

definition filteredTranscription ::
  "nat TranscriptionChunk list \<Rightarrow> utf16 \<Rightarrow> nat TranscriptionChunk list option" where
  "filteredTranscription transcription searchQuery =
     filter_modelled (chunk_matches searchQuery) transcription"

text \<open>
  The specification's wording: the text contains the query as a case-insensitive substring,
  that is, some stretch of the text agrees with the query letter by letter when case is
  ignored. Two code units are the same letter when they are equal or one is the capital of
  the other; the capitals of ASCII and Latin-1 are A to Z, U+00C0 to U+00D6 and U+00D8 to
  U+00DE, each 32 below its small letter.
\<close>

definition capital_of :: "nat \<Rightarrow> nat \<Rightarrow> bool" where
  "capital_of c l =
     (((65 \<le> c \<and> c \<le> 90) \<or> (192 \<le> c \<and> c \<le> 214) \<or> (216 \<le> c \<and> c \<le> 222)) \<and> l = c + 32)"

definition same_letter :: "nat \<Rightarrow> nat \<Rightarrow> bool" where
  "same_letter a b = (a = b \<or> capital_of a b \<or> capital_of b a)"

definition ci_substring :: "utf16 \<Rightarrow> utf16 \<Rightarrow> bool" where
  "ci_substring q t =
     (\<exists>before mid after. t = before @ mid @ after \<and> list_all2 same_letter mid q)"


section \<open>The proxy endpoint\<close>

text \<open>
  The request carries the \<open>url\<close> query parameter when it has one. The upstream \<open>fetch\<close> is an
  input of the handler: it throws, or it answers with a status, an optional content type
  and a body that \<open>arrayBuffer()\<close> delivers or fails to deliver. \<open>response.ok\<close> is a status
  from 200 to 299. The response records the status (200 unless set), the headers written
  with \<open>setHeader\<close> in order, and the body; the defaults the framework adds when sending
  are not part of it.
\<close>

record proxy_request =
  query_url :: "string option"

record upstream_response =
  up_status :: nat
  up_content_type :: "string option"
  up_arrayBuffer :: "string option"

datatype fetch_result = Fetch_throws | Fetch_resolves upstream_response

datatype response_body = Json_error string | Buffer string

record http_response =
  status :: nat
  headers :: "(string \<times> string) list"
  body :: "response_body option"

definition ok :: "upstream_response \<Rightarrow> bool" where
  "ok r = (200 \<le> up_status r \<and> up_status r \<le> 299)"

definition new_response :: http_response where
  "new_response = \<lparr>status = 200, headers = [], body = None\<rparr>"

definition setHeader :: "string \<Rightarrow> string \<Rightarrow> http_response \<Rightarrow> http_response" where
  "setHeader name v res = res\<lparr>headers := filter (\<lambda>h. fst h \<noteq> name) (headers res) @ [(name, v)]\<rparr>"

definition status_json :: "nat \<Rightarrow> string \<Rightarrow> http_response \<Rightarrow> http_response" where
  \<comment> \<open>\<open>res.status(code).json({ error: msg })\<close>\<close>
  "status_json code msg res = res\<lparr>status := code, body := Some (Json_error msg)\<rparr>"

definition send :: "string \<Rightarrow> http_response \<Rightarrow> http_response" where
  "send buffer res = res\<lparr>body := Some (Buffer buffer)\<rparr>"

text \<open>The exported \<open>handler\<close> of the serverless function.\<close>

definition handler :: "(string \<Rightarrow> fetch_result) \<Rightarrow> proxy_request \<Rightarrow> http_response \<Rightarrow> http_response" where
  "handler fetch req res =
     (case query_url req of
        None \<Rightarrow> status_json 400 ''URL is required'' res
      | Some audioUrl \<Rightarrow>
          if audioUrl = [] then status_json 400 ''URL is required'' res
          else
            (case fetch audioUrl of
               Fetch_throws \<Rightarrow> status_json 500 ''Failed to fetch audio'' res
             | Fetch_resolves response \<Rightarrow>
                 if \<not> ok response then status_json (up_status response) ''Failed to fetch audio'' res
                 else
                   let res1 = (case up_content_type response of
                                 None \<Rightarrow> res
                               | Some contentType \<Rightarrow>
                                   if contentType \<noteq> [] then setHeader ''Content-Type'' contentType res
                                   else res)
                   in (case up_arrayBuffer response of
                         None \<Rightarrow> status_json 500 ''Failed to fetch audio'' res1
                       | Some buffer \<Rightarrow> send buffer res1)))"

text \<open>
  The Express server: the middleware of \<open>startServer\<close> writes the two isolation headers on
  every response, then the route \<open>/api/proxy-audio\<close> runs the same steps as \<open>handler\<close>. The
  headers that the \<open>cors\<close> package adds are not recorded.
\<close>

definition isolation_headers :: "http_response \<Rightarrow> http_response" where
  "isolation_headers res =
     setHeader ''Cross-Origin-Embedder-Policy'' ''require-corp''
       (setHeader ''Cross-Origin-Opener-Policy'' ''same-origin'' res)"

definition proxy_audio_route :: "(string \<Rightarrow> fetch_result) \<Rightarrow> proxy_request \<Rightarrow> http_response" where
  "proxy_audio_route fetch req =
     (let res = isolation_headers new_response
      in case query_url req of
           None \<Rightarrow> status_json 400 ''URL is required'' res
         | Some audioUrl \<Rightarrow>
             if audioUrl = [] then status_json 400 ''URL is required'' res
             else
               (case fetch audioUrl of
                  Fetch_throws \<Rightarrow> status_json 500 ''Failed to fetch audio'' res
                | Fetch_resolves response \<Rightarrow>
                    if \<not> ok response then status_json (up_status response) ''Failed to fetch audio'' res
                    else
                      let res1 = (case up_content_type response of
                                    None \<Rightarrow> res
                                  | Some contentType \<Rightarrow>
                                      if contentType \<noteq> [] then setHeader ''Content-Type'' contentType res
                                      else res)
                      in (case up_arrayBuffer response of
                            None \<Rightarrow> status_json 500 ''Failed to fetch audio'' res1
                          | Some buffer \<Rightarrow> send buffer res1)))"


section \<open>The state of the \<open>App\<close> component and its actions\<close>

record Blob =
  blob_type :: string
  blob_data :: string

datatype format = mp3 | m4a | aac

record app_state =
  audioFile :: "Blob option"
  audioUrl :: string
  inputUrl :: string
  isTranscribing :: bool
  transcriptionProgress :: real
  transcription :: "char TranscriptionChunk list"
  searchQuery :: string
  isConverting :: bool
  conversionProgress :: real
  convertedUrl :: "string option"
  targetFormat :: format

text \<open>The initial values of the \<open>useState\<close> calls.\<close>

definition initial_state :: app_state where
  "initial_state =
     \<lparr>audioFile = None, audioUrl = [], inputUrl = [], isTranscribing = False,
      transcriptionProgress = 0, transcription = [], searchQuery = [], isConverting = False,
      conversionProgress = 0, convertedUrl = None, targetFormat = mp3\<rparr>"

text \<open>
  What an action shows or logs besides changing the state: \<open>alert\<close> is the only message the
  user sees, \<open>console.error\<close> goes to the console.
\<close>

datatype effect = alert string | console_error

text \<open>
  \<open>handleFileUpload\<close>: \<open>file\<close> is \<open>e.target.files?.[0]\<close> and \<open>objectUrl\<close> the string that
  \<open>URL.createObjectURL\<close> returns for it.
\<close>

definition handleFileUpload :: "Blob option \<Rightarrow> string \<Rightarrow> app_state \<Rightarrow> app_state" where
  "handleFileUpload file objectUrl s =
     (case file of
        Some f \<Rightarrow> s\<lparr>audioFile := Some f, audioUrl := objectUrl,
                   transcription := [], convertedUrl := None\<rparr>
      | None \<Rightarrow> s)"

text \<open>
  \<open>handleUrlSubmit\<close>: the request to the proxy throws, or answers with its \<open>ok\<close> flag and the
  blob that \<open>response.blob()\<close> delivers (\<open>None\<close> when that call fails).
\<close>

datatype proxy_reply = Request_throws | Reply bool "Blob option"

definition load_failed :: "effect list" where
  "load_failed =
     [console_error, alert ''Failed to load audio from URL. Please check the URL and try again.'']"

definition handleUrlSubmit :: "proxy_reply \<Rightarrow> string \<Rightarrow> app_state \<Rightarrow> app_state \<times> effect list" where
  "handleUrlSubmit reply objectUrl s =
     (if inputUrl s = [] then (s, [])
      else
        (case reply of
           Request_throws \<Rightarrow> (s, load_failed)
         | Reply response_ok blob_result \<Rightarrow>
             if \<not> response_ok then (s, load_failed)
             else
               (case blob_result of
                  None \<Rightarrow> (s, load_failed)
                | Some blob \<Rightarrow>
                    (s\<lparr>audioFile := Some blob, audioUrl := objectUrl,
                       transcription := [], convertedUrl := None\<rparr>, []))))"

text \<open>
  The simulated progress of \<open>handleTranscribe\<close>. The callback of the interval computes in
  double precision; \<open>fl\<close> is the rounding of an exact result to a double, applied after each
  arithmetic operation (the comparison and \<open>Math.max\<close> are exact).
\<close>

definition progress_step :: "(real \<Rightarrow> real) \<Rightarrow> real \<Rightarrow> real" where
  "progress_step fl prev =
     (if prev \<ge> 90 then prev
      else let increment = max (1 / 2) (fl (fl (90 - prev) / 20))
           in fl (prev + increment))"

text \<open>
  \<open>handleTranscribe\<close> in the order of its events: the guard and the two first updates, the
  firings of the interval while the request is pending, and the settlement of the request.
  The request is rejected, or it resolves to no response, or to a response whose \<open>text\<close> may
  be missing.
\<close>

datatype generate_result = Rejected | Resolved_null | Resolved "string option"

definition transcribe_begin :: "app_state \<Rightarrow> app_state" where
  "transcribe_begin s = s\<lparr>isTranscribing := True, transcriptionProgress := 0\<rparr>"

definition interval_fires :: "(real \<Rightarrow> real) \<Rightarrow> app_state \<Rightarrow> app_state" where
  "interval_fires fl s = s\<lparr>transcriptionProgress := progress_step fl (transcriptionProgress s)\<rparr>"

definition transcribe_failed :: "effect list" where
  "transcribe_failed =
     [console_error,
      alert ''Transcription failed. The file might be too large or the API encountered an error.'']"

definition transcribe_settle :: "generate_result \<Rightarrow> app_state \<Rightarrow> app_state \<times> effect list" where
  "transcribe_settle result s =
     (case result of
        Rejected \<Rightarrow> (s\<lparr>isTranscribing := False\<rparr>, transcribe_failed)
      | Resolved_null \<Rightarrow> (s\<lparr>isTranscribing := False\<rparr>, transcribe_failed)
      | Resolved response_text \<Rightarrow>
          (s\<lparr>transcription := parse_chunks (case response_text of Some t \<Rightarrow> t | None \<Rightarrow> []),
             transcriptionProgress := 100\<rparr>, []))"

definition handleTranscribe ::
  "(real \<Rightarrow> real) \<Rightarrow> nat \<Rightarrow> generate_result \<Rightarrow> app_state \<Rightarrow> app_state \<times> effect list" where
  "handleTranscribe fl firings result s =
     (case audioFile s of
        None \<Rightarrow> (s, [])
      | Some f \<Rightarrow> transcribe_settle result ((interval_fires fl ^^ firings) (transcribe_begin s)))"

text \<open>The timer of 500 ms that a successful \<open>handleTranscribe\<close> leaves behind.\<close>

definition transcribe_timeout :: "app_state \<Rightarrow> app_state" where
  "transcribe_timeout s = s\<lparr>isTranscribing := False\<rparr>"

text \<open>
  \<open>handleConvert\<close>: \<open>convertAudio\<close> reports progress values and then delivers the converted
  blob or fails; \<open>objectUrl\<close> is the URL created for the converted blob.
\<close>

datatype convert_result = Convert_fails | Converted Blob

definition handleConvert ::
  "real list \<Rightarrow> convert_result \<Rightarrow> string \<Rightarrow> app_state \<Rightarrow> app_state \<times> effect list" where
  "handleConvert reports result objectUrl s =
     (case audioFile s of
        None \<Rightarrow> (s, [])
      | Some f \<Rightarrow>
          let s1 = s\<lparr>isConverting := True, conversionProgress := 0\<rparr>;
              s2 = foldl (\<lambda>st p. st\<lparr>conversionProgress := p\<rparr>) s1 reports
          in (case result of
                Converted blob \<Rightarrow> (s2\<lparr>convertedUrl := Some objectUrl, isConverting := False\<rparr>, [])
              | Convert_fails \<Rightarrow>
                  (s2\<lparr>isConverting := False\<rparr>,
                   [console_error, alert ''Conversion failed. Please try again.''])))"


section \<open>Properties of the string functions and of the matcher\<close>

lemma digit_not_colon: "is_digit c \<Longrightarrow> c \<noteq> CHR '':''"
  by (auto simp: is_digit_def)

lemma digit_not_close: "is_digit c \<Longrightarrow> c \<noteq> CHR '']''"
  by (auto simp: is_digit_def)

lemma space_not_open: "is_space c \<Longrightarrow> c \<noteq> CHR ''[''"
  by (auto simp: is_space_def)

lemma split_on_nonempty: "split_on sep s \<noteq> []"
  by (induction s) (auto split: list.splits)

lemma split_on_no_sep: "sep \<notin> set s \<Longrightarrow> split_on sep s = [s]"
  by (induction s) auto

lemma split_on_append_sep:
  "sep \<notin> set h \<Longrightarrow> split_on sep (h @ sep # r) = h # split_on sep r"
  by (induction h) auto

lemma digits2_simps:
  "digits2 [] = None" "digits2 [a] = None"
  "digits2 (a # b # r) = (if is_digit a \<and> is_digit b then Some ([a, b], r) else None)"
  by (simp_all add: digits2_def)

lemma colon_digits2_simps:
  "colon_digits2 [] = None"
  "colon_digits2 (c # r) = (if c = CHR '':'' then digits2 r else None)"
  by (simp_all add: colon_digits2_def)

lemma close_bracket_simps:
  "close_bracket t [] = None"
  "close_bracket t (c # r) = (if c = CHR '']'' then Some (t, rest_capture r) else None)"
  by (simp_all add: close_bracket_def)

lemma digits2_Some:
  "digits2 s = Some (d, r) \<longleftrightarrow> (\<exists>a b. s = a # b # r \<and> d = [a, b] \<and> is_digit a \<and> is_digit b)"
  by (auto simp: digits2_def split: list.splits)

lemma colon_digits2_Some:
  "colon_digits2 s = Some (d, r) \<longleftrightarrow>
     (\<exists>a b. s = CHR '':'' # a # b # r \<and> d = [a, b] \<and> is_digit a \<and> is_digit b)"
  by (auto simp: colon_digits2_def digits2_Some split: list.splits)

lemma after_minutes_Some:
  "after_minutes t s = Some (t', x) \<longleftrightarrow>
     (\<exists>r. x = rest_capture r \<and>
        ((s = CHR '']'' # r \<and> t' = t) \<or>
         (\<exists>a b. s = CHR '':'' # a # b # CHR '']'' # r \<and> is_digit a \<and> is_digit b \<and> t' = t @ [CHR '':'', a, b])))"
proof (cases "colon_digits2 s")
  case None
  have "\<not> (\<exists>a b r. s = CHR '':'' # a # b # CHR '']'' # r \<and> is_digit a \<and> is_digit b)"
    using None by (auto simp: colon_digits2_simps digits2_simps)
  then show ?thesis
    using None by (cases s) (auto simp: after_minutes_def close_bracket_simps)
next
  case (Some p)
  obtain d r where p: "p = (d, r)" by (cases p)
  from Some p obtain a b where s: "s = CHR '':'' # a # b # r" "d = [a, b]" "is_digit a" "is_digit b"
    by (auto simp: colon_digits2_Some)
  show ?thesis
    using Some p s by (cases r) (auto simp: after_minutes_def close_bracket_simps)
qed

lemma after_first_Some:
  "after_first h s = Some (t', x) \<longleftrightarrow>
     (\<exists>a b s'. s = CHR '':'' # a # b # s' \<and> is_digit a \<and> is_digit b \<and>
        after_minutes (h @ [CHR '':'', a, b]) s' = Some (t', x))"
  by (auto simp: after_first_def colon_digits2_Some colon_digits2_simps digits2_simps split: option.splits)

lemma match_here_simps:
  "match_here [] = None" "match_here [c] = None"
  "match_here [c, a] = (if c = CHR ''['' \<and> is_digit a then after_first [a] [] else None)"
  "match_here (c # a # b # r) =
     (if c = CHR ''['' \<and> is_digit a then
        (case (if is_digit b then after_first [a, b] r else None) of
           Some m \<Rightarrow> Some m | None \<Rightarrow> after_first [a] (b # r))
      else None)"
  by (simp_all add: match_here_def)


lemma split_on_single: "split_on sep t = [p] \<Longrightarrow> t = p \<and> sep \<notin> set p"
proof (induction t arbitrary: p)
  case Nil
  then show ?case by simp
next
  case (Cons c t)
  then show ?case
    using split_on_nonempty [of sep t] by (auto split: if_splits list.splits)
qed

lemma split_on_cons:
  "split_on sep t = p # q # qs \<Longrightarrow> \<exists>r. t = p @ sep # r \<and> sep \<notin> set p \<and> split_on sep r = q # qs"
proof (induction t arbitrary: p)
  case Nil
  then show ?case by simp
next
  case (Cons c t)
  show ?case
  proof (cases "c = sep")
    case True
    with Cons.prems show ?thesis by auto
  next
    case False
    with Cons.prems obtain p' where p': "split_on sep t = p' # q # qs" "p = c # p'"
      by (auto split: list.splits)
    from Cons.IH [OF p'(1)] obtain r where "t = p' @ sep # r" "sep \<notin> set p'" "split_on sep r = q # qs"
      by blast
    with p' False show ?thesis by auto
  qed
qed

lemma digit_run_2: "digit_run 2 s \<longleftrightarrow> (\<exists>a b. s = [a, b] \<and> is_digit a \<and> is_digit b)"
  by (auto simp: digit_run_def length_Suc_conv numeral_2_eq_2)

lemma digit_run_no_colon: "digit_run n s \<Longrightarrow> CHR '':'' \<notin> set s"
  by (auto simp: digit_run_def list_all_iff dest: digit_not_colon)

lemma is_timestamp_iff:
  "is_timestamp t \<longleftrightarrow>
     (\<exists>h m. (digit_run 1 h \<or> digit_run 2 h) \<and> digit_run 2 m \<and>
        (t = h @ CHR '':'' # m \<or> (\<exists>s. digit_run 2 s \<and> t = h @ CHR '':'' # m @ CHR '':'' # s)))"
  (is "?L \<longleftrightarrow> ?R")
proof
  assume ?L
  show ?R
  proof (cases "split_on CHR '':'' t")
    case Nil
    with \<open>?L\<close> show ?thesis by (simp add: is_timestamp_def)
  next
    case (Cons h ps)
    show ?thesis
    proof (cases ps)
      case Nil
      with Cons \<open>?L\<close> show ?thesis by (simp add: is_timestamp_def)
    next
      case ps: (Cons m qs)
      from split_on_cons [OF Cons [unfolded ps]] obtain r
        where r: "t = h @ CHR '':'' # r" "split_on CHR '':'' r = m # qs" by blast
      show ?thesis
      proof (cases qs)
        case Nil
        from split_on_single [OF r(2) [unfolded Nil]] have rm: "r = m" by simp
        from \<open>?L\<close> Cons ps Nil have "digit_run 1 h \<or> digit_run 2 h" "digit_run 2 m"
          by (simp_all add: is_timestamp_def)
        with r(1) rm show ?thesis by blast
      next
        case qs: (Cons sec us)
        from split_on_cons [OF r(2) [unfolded qs]] obtain r'
          where r': "r = m @ CHR '':'' # r'" "split_on CHR '':'' r' = sec # us" by blast
        from \<open>?L\<close> Cons ps qs have us: "us = []"
          by (cases us) (simp_all add: is_timestamp_def)
        from split_on_single [OF r'(2) [unfolded us]] have rs: "r' = sec" by simp
        from \<open>?L\<close> Cons ps qs us have "digit_run 1 h \<or> digit_run 2 h" "digit_run 2 m" "digit_run 2 sec"
          by (simp_all add: is_timestamp_def)
        with r(1) r'(1) rs show ?thesis by blast
      qed
    qed
  qed
next
  assume ?R
  then obtain h m where h: "digit_run 1 h \<or> digit_run 2 h" "digit_run 2 m"
    and t: "t = h @ CHR '':'' # m \<or> (\<exists>s. digit_run 2 s \<and> t = h @ CHR '':'' # m @ CHR '':'' # s)"
    by blast
  have nc: "CHR '':'' \<notin> set h" "CHR '':'' \<notin> set m"
    using h digit_run_no_colon by blast+
  from t show ?L
  proof
    assume "t = h @ CHR '':'' # m"
    then have "split_on CHR '':'' t = [h, m]"
      using nc by (simp add: split_on_append_sep split_on_no_sep)
    then show ?L using h by (simp add: is_timestamp_def)
  next
    assume "\<exists>s. digit_run 2 s \<and> t = h @ CHR '':'' # m @ CHR '':'' # s"
    then obtain s where s: "digit_run 2 s" "t = h @ CHR '':'' # m @ CHR '':'' # s"
      by blast
    then have "split_on CHR '':'' t = [h, m, s]"
      using nc digit_run_no_colon [OF s(1)] by (simp add: split_on_append_sep split_on_no_sep)
    then show ?L using h s by (simp add: is_timestamp_def)
  qed
qed

lemma is_timestamp_short:
  "digit_run 1 h \<or> digit_run 2 h \<Longrightarrow> digit_run 2 m \<Longrightarrow> is_timestamp (h @ CHR '':'' # m)"
  unfolding is_timestamp_iff by blast

lemma is_timestamp_long:
  "digit_run 1 h \<or> digit_run 2 h \<Longrightarrow> digit_run 2 m \<Longrightarrow> digit_run 2 s \<Longrightarrow>
   is_timestamp (h @ CHR '':'' # m @ CHR '':'' # s)"
  unfolding is_timestamp_iff by blast

lemma match_here_Some:
  "match_here s = Some (t, x) \<longleftrightarrow>
     (\<exists>r. s = CHR ''['' # t @ CHR '']'' # r \<and> is_timestamp t \<and> x = rest_capture r)"
  (is "?L \<longleftrightarrow> ?R")
proof
  assume ?L
  then obtain a s1 where s: "s = CHR ''['' # a # s1" "is_digit a"
    by (auto simp: match_here_def split: list.splits if_splits)
  have d1: "digit_run 1 [a]" using s(2) by (simp add: digit_run_def)
  have "(\<exists>b s2. s1 = b # s2 \<and> is_digit b \<and> after_first [a, b] s2 = Some (t, x))
        \<or> after_first [a] s1 = Some (t, x)"
    using \<open>?L\<close> s by (cases s1) (auto simp: match_here_simps split: option.splits if_splits)
  then show ?R
  proof
    assume "\<exists>b s2. s1 = b # s2 \<and> is_digit b \<and> after_first [a, b] s2 = Some (t, x)"
    then obtain b s2 where b: "s1 = b # s2" "is_digit b" "after_first [a, b] s2 = Some (t, x)"
      by blast
    have d2: "digit_run 2 [a, b]" using s(2) b(2) by (simp add: digit_run_def)
    from b(3) obtain m1 m2 s3 where m: "s2 = CHR '':'' # m1 # m2 # s3" "is_digit m1" "is_digit m2"
      "after_minutes ([a, b] @ [CHR '':'', m1, m2]) s3 = Some (t, x)"
      by (auto simp: after_first_Some)
    have dm: "digit_run 2 [m1, m2]" using m by (simp add: digit_run_def)
    from m(4) obtain r where r: "x = rest_capture r"
      "(s3 = CHR '']'' # r \<and> t = [a, b] @ [CHR '':'', m1, m2]) \<or>
       (\<exists>c d. s3 = CHR '':'' # c # d # CHR '']'' # r \<and> is_digit c \<and> is_digit d \<and>
          t = ([a, b] @ [CHR '':'', m1, m2]) @ [CHR '':'', c, d])"
      by (auto simp: after_minutes_Some)
    from r(2) show ?R
    proof
      assume "s3 = CHR '']'' # r \<and> t = [a, b] @ [CHR '':'', m1, m2]"
      moreover from this have "is_timestamp t"
        using is_timestamp_short [of "[a, b]" "[m1, m2]"] d2 dm by simp
      ultimately show ?R using s b m r(1) by auto
    next
      assume "\<exists>c d. s3 = CHR '':'' # c # d # CHR '']'' # r \<and> is_digit c \<and> is_digit d \<and>
          t = ([a, b] @ [CHR '':'', m1, m2]) @ [CHR '':'', c, d]"
      then obtain c d where cd: "s3 = CHR '':'' # c # d # CHR '']'' # r" "is_digit c" "is_digit d"
        "t = [a, b] @ CHR '':'' # [m1, m2] @ CHR '':'' # [c, d]" by auto
      have "digit_run 2 [c, d]" using cd by (simp add: digit_run_def)
      with cd(4) d2 dm have "is_timestamp t"
        using is_timestamp_long [of "[a, b]" "[m1, m2]" "[c, d]"] by simp
      then show ?R using s b m r(1) cd by auto
    qed
  next
    assume af: "after_first [a] s1 = Some (t, x)"
    from af obtain m1 m2 s3 where m: "s1 = CHR '':'' # m1 # m2 # s3" "is_digit m1" "is_digit m2"
      "after_minutes ([a] @ [CHR '':'', m1, m2]) s3 = Some (t, x)"
      by (auto simp: after_first_Some)
    have dm: "digit_run 2 [m1, m2]" using m by (simp add: digit_run_def)
    from m(4) obtain r where r: "x = rest_capture r"
      "(s3 = CHR '']'' # r \<and> t = [a] @ [CHR '':'', m1, m2]) \<or>
       (\<exists>c d. s3 = CHR '':'' # c # d # CHR '']'' # r \<and> is_digit c \<and> is_digit d \<and>
          t = ([a] @ [CHR '':'', m1, m2]) @ [CHR '':'', c, d])"
      by (auto simp: after_minutes_Some)
    from r(2) show ?R
    proof
      assume "s3 = CHR '']'' # r \<and> t = [a] @ [CHR '':'', m1, m2]"
      moreover from this have "is_timestamp t"
        using is_timestamp_short [of "[a]" "[m1, m2]"] d1 dm by simp
      ultimately show ?R using s m r(1) by auto
    next
      assume "\<exists>c d. s3 = CHR '':'' # c # d # CHR '']'' # r \<and> is_digit c \<and> is_digit d \<and>
          t = ([a] @ [CHR '':'', m1, m2]) @ [CHR '':'', c, d]"
      then obtain c d where cd: "s3 = CHR '':'' # c # d # CHR '']'' # r" "is_digit c" "is_digit d"
        "t = [a] @ CHR '':'' # [m1, m2] @ CHR '':'' # [c, d]" by auto
      have "digit_run 2 [c, d]" using cd by (simp add: digit_run_def)
      with cd(4) d1 dm have "is_timestamp t"
        using is_timestamp_long [of "[a]" "[m1, m2]" "[c, d]"] by simp
      then show ?R using s m r(1) cd by auto
    qed
  qed
next
  assume ?R
  then obtain r where r: "s = CHR ''['' # t @ CHR '']'' # r" "is_timestamp t" "x = rest_capture r"
    by blast
  from r(2) obtain h m where h: "digit_run 1 h \<or> digit_run 2 h" "digit_run 2 m"
    and t: "t = h @ CHR '':'' # m \<or> (\<exists>sec. digit_run 2 sec \<and> t = h @ CHR '':'' # m @ CHR '':'' # sec)"
    unfolding is_timestamp_iff by blast
  from h(2) obtain m1 m2 where m: "m = [m1, m2]" "is_digit m1" "is_digit m2"
    by (auto simp: digit_run_2)
  have am: "after_minutes (h @ [CHR '':'', m1, m2]) (drop (length h + 3) (t @ CHR '']'' # r)) = Some (t, x)"
    using t
  proof
    assume "t = h @ CHR '':'' # m"
    then show ?thesis using m r(3) by (simp add: after_minutes_Some)
  next
    assume "\<exists>sec. digit_run 2 sec \<and> t = h @ CHR '':'' # m @ CHR '':'' # sec"
    then obtain c d where "t = h @ CHR '':'' # m @ CHR '':'' # [c, d]" "is_digit c" "is_digit d"
      by (auto simp: digit_run_2)
    then show ?thesis using m r(3) by (simp add: after_minutes_Some)
  qed
  have tl: "\<exists>rest. t @ CHR '']'' # r = h @ CHR '':'' # m1 # m2 # rest \<and> drop (length h + 3) (t @ CHR '']'' # r) = rest"
    using t m by auto
  then obtain rest where rest: "t @ CHR '']'' # r = h @ CHR '':'' # m1 # m2 # rest"
    "drop (length h + 3) (t @ CHR '']'' # r) = rest" by blast
  have af: "after_first h (CHR '':'' # m1 # m2 # rest) = Some (t, x)"
    using am rest(2) m by (simp add: after_first_Some)
  from h(1) show ?L
  proof
    assume "digit_run 1 h"
    then obtain a where a: "h = [a]" "is_digit a" by (auto simp: digit_run_def length_Suc_conv)
    have "\<not> is_digit CHR '':''" using digit_not_colon by blast
    then show ?L using a af r(1) rest(1) by (simp add: match_here_simps)
  next
    assume "digit_run 2 h"
    then obtain a b where a: "h = [a, b]" "is_digit a" "is_digit b" by (auto simp: digit_run_2)
    then show ?L using af r(1) rest(1) by (simp add: match_here_simps)
  qed
qed

lemma timeRegex_exec_Some:
  "timeRegex_exec line = Some (t, x) \<longleftrightarrow>
     (\<exists>pre post. line = pre @ CHR ''['' # t @ CHR '']'' # post \<and> is_timestamp t \<and>
        x = rest_capture post \<and> (\<forall>k<length pre. match_here (drop k line) = None))"
proof (induction line)
  case Nil
  then show ?case by simp
next
  case (Cons c cs)
  show ?case
  proof (cases "match_here (c # cs)")
    case None
    have "(\<exists>pre post. c # cs = pre @ CHR ''['' # t @ CHR '']'' # post \<and> is_timestamp t \<and>
        x = rest_capture post \<and> (\<forall>k<length pre. match_here (drop k (c # cs)) = None))
      \<longleftrightarrow> (\<exists>pre post. cs = pre @ CHR ''['' # t @ CHR '']'' # post \<and> is_timestamp t \<and>
        x = rest_capture post \<and> (\<forall>k<length pre. match_here (drop k cs) = None))"
      (is "?A \<longleftrightarrow> ?B")
    proof
      assume ?A
      then obtain pre post where p: "c # cs = pre @ CHR ''['' # t @ CHR '']'' # post"
        "is_timestamp t" "x = rest_capture post"
        "\<forall>k<length pre. match_here (drop k (c # cs)) = None" by blast
      have "pre \<noteq> []"
      proof
        assume "pre = []"
        with p have "match_here (c # cs) = Some (t, x)" by (simp add: match_here_Some)
        with None show False by simp
      qed
      then obtain pre' where pre': "pre = c # pre'" using p(1) by (cases pre) auto
      have "\<forall>k<length pre'. match_here (drop k cs) = None"
      proof (intro allI impI)
        fix k assume "k < length pre'"
        then have "Suc k < length pre" using pre' by simp
        with p(4) have "match_here (drop (Suc k) (c # cs)) = None" by blast
        then show "match_here (drop k cs) = None" by simp
      qed
      moreover have "cs = pre' @ CHR ''['' # t @ CHR '']'' # post" using p(1) pre' by simp
      ultimately show ?B using p(2,3) by blast
    next
      assume ?B
      then obtain pre post where p: "cs = pre @ CHR ''['' # t @ CHR '']'' # post"
        "is_timestamp t" "x = rest_capture post"
        "\<forall>k<length pre. match_here (drop k cs) = None" by blast
      have "\<forall>k<length (c # pre). match_here (drop k (c # cs)) = None"
      proof (intro allI impI)
        fix k assume k: "k < length (c # pre)"
        show "match_here (drop k (c # cs)) = None"
        proof (cases k)
          case 0
          with None show ?thesis by simp
        next
          case (Suc j)
          with k p(4) show ?thesis by simp
        qed
      qed
      moreover have "c # cs = (c # pre) @ CHR ''['' # t @ CHR '']'' # post" using p(1) by simp
      ultimately show ?A using p(2,3) by blast
    qed
    with None Cons.IH show ?thesis by simp
  next
    case (Some m)
    have "timeRegex_exec (c # cs) = Some (t, x) \<longleftrightarrow> m = (t, x)" using Some by simp
    moreover have "m = (t, x) \<longleftrightarrow>
      (\<exists>pre post. c # cs = pre @ CHR ''['' # t @ CHR '']'' # post \<and> is_timestamp t \<and>
        x = rest_capture post \<and> (\<forall>k<length pre. match_here (drop k (c # cs)) = None))"
      (is "_ \<longleftrightarrow> ?A")
    proof
      assume "m = (t, x)"
      with Some have "match_here (c # cs) = Some (t, x)" by simp
      then obtain r where "c # cs = [] @ CHR ''['' # t @ CHR '']'' # r" "is_timestamp t" "x = rest_capture r"
        by (auto simp: match_here_Some)
      then show ?A by (intro exI [of _ "[]"] exI [of _ r]) simp
    next
      assume ?A
      then obtain pre post where p: "c # cs = pre @ CHR ''['' # t @ CHR '']'' # post"
        "is_timestamp t" "x = rest_capture post"
        "\<forall>k<length pre. match_here (drop k (c # cs)) = None" by blast
      have "pre = []"
      proof (rule ccontr)
        assume "pre \<noteq> []"
        then have "0 < length pre" by simp
        with p(4) have "match_here (drop 0 (c # cs)) = None" by blast
        with Some show False by simp
      qed
      with p have "match_here (c # cs) = Some (t, x)" by (simp add: match_here_Some)
      with Some show "m = (t, x)" by simp
    qed
    ultimately show ?thesis by simp
  qed
qed

lemma trim_empty_iff: "trim s = [] \<longleftrightarrow> (\<forall>c\<in>set s. is_space c)"
proof -
  have "trim s = [] \<longleftrightarrow> (\<forall>c\<in>set (dropWhile is_space s). is_space c)"
    by (simp add: trim_def dropWhile_eq_Nil_conv)
  also have "\<dots> \<longleftrightarrow> dropWhile is_space s = []"
  proof
    assume a: "\<forall>c\<in>set (dropWhile is_space s). is_space c"
    show "dropWhile is_space s = []"
    proof (rule ccontr)
      assume ne: "dropWhile is_space s \<noteq> []"
      then have "\<not> is_space (hd (dropWhile is_space s))" by (rule hd_dropWhile)
      moreover have "hd (dropWhile is_space s) \<in> set (dropWhile is_space s)" using ne by simp
      ultimately show False using a by blast
    qed
  qed (auto dest: set_dropWhileD)
  also have "\<dots> \<longleftrightarrow> (\<forall>c\<in>set s. is_space c)"
    by (simp add: dropWhile_eq_Nil_conv)
  finally show ?thesis .
qed

lemma match_here_not_open: "c \<noteq> CHR ''['' \<Longrightarrow> match_here (c # cs) = None"
  by (simp add: match_here_def split: list.splits)

lemma timeRegex_exec_spaces: "\<forall>c\<in>set s. is_space c \<Longrightarrow> timeRegex_exec s = None"
  by (induction s) (auto simp: match_here_not_open space_not_open)

lemma blank_line_no_match: "trim l = [] \<Longrightarrow> timeRegex_exec l = None"
  by (simp add: trim_empty_iff timeRegex_exec_spaces)

lemma push_line_match:
  "timeRegex_exec line = Some (t, x) \<Longrightarrow> push_line chunks line = chunks @ [\<lparr>time = t, text = x\<rparr>]"
  by (simp add: push_line_def)

lemma push_line_blank: "trim line = [] \<Longrightarrow> push_line chunks line = chunks"
  by (simp add: push_line_def blank_line_no_match)

lemma push_line_first:
  "timeRegex_exec line = None \<Longrightarrow> trim line \<noteq> [] \<Longrightarrow>
   push_line [] line = [\<lparr>time = ''00:00'', text = trim line\<rparr>]"
  by (simp add: push_line_def)

lemma push_line_continuation:
  assumes "timeRegex_exec line = None" "trim line \<noteq> []" "chunks \<noteq> []"
  shows "push_line chunks line =
           butlast chunks @ [(last chunks)\<lparr>text := text (last chunks) @ '' '' @ trim line\<rparr>]"
proof -
  from assms(3) obtain ys y where "chunks = ys @ [y]"
    by (cases chunks rule: rev_cases) auto
  then show ?thesis using assms(1,2) by (simp add: push_line_def)
qed

lemma digit_run_no_close: "digit_run n s \<Longrightarrow> CHR '']'' \<notin> set s"
  by (auto simp: digit_run_def list_all_iff dest: digit_not_close)

lemma is_timestamp_no_close: "is_timestamp t \<Longrightarrow> CHR '']'' \<notin> set t"
  unfolding is_timestamp_iff by (auto dest: digit_run_no_close)

lemma bracketed_timestamp_Some:
  "bracketed_timestamp s = Some (t, r) \<longleftrightarrow> s = CHR ''['' # t @ CHR '']'' # r \<and> is_timestamp t"
proof
  assume a: "bracketed_timestamp s = Some (t, r)"
  then obtain r0 where s: "s = CHR ''['' # r0" and mem: "CHR '']'' \<in> set r0"
    and t: "t = takeWhile (\<lambda>d. d \<noteq> CHR '']'') r0" and ts: "is_timestamp t"
    and r: "r = tl (dropWhile (\<lambda>d. d \<noteq> CHR '']'') r0)"
    by (auto simp: bracketed_timestamp_def split: list.splits if_splits)
  have ne: "dropWhile (\<lambda>d. d \<noteq> CHR '']'') r0 \<noteq> []"
    using mem by (simp add: dropWhile_eq_Nil_conv)
  then have "hd (dropWhile (\<lambda>d. d \<noteq> CHR '']'') r0) = CHR '']''"
    using hd_dropWhile [of "\<lambda>d. d \<noteq> CHR '']''" r0] by simp
  with ne r have "dropWhile (\<lambda>d. d \<noteq> CHR '']'') r0 = CHR '']'' # r"
    by (cases "dropWhile (\<lambda>d. d \<noteq> CHR '']'') r0") auto
  then have "r0 = t @ CHR '']'' # r"
    using takeWhile_dropWhile_id [of "\<lambda>d. d \<noteq> CHR '']''" r0] t by simp
  with s ts show "s = CHR ''['' # t @ CHR '']'' # r \<and> is_timestamp t" by simp
next
  assume a: "s = CHR ''['' # t @ CHR '']'' # r \<and> is_timestamp t"
  then have nc: "CHR '']'' \<notin> set t" by (simp add: is_timestamp_no_close)
  have "\<forall>d\<in>set t. d \<noteq> CHR '']''" using nc by blast
  then have "takeWhile (\<lambda>d. d \<noteq> CHR '']'') (t @ CHR '']'' # r) = t"
    "dropWhile (\<lambda>d. d \<noteq> CHR '']'') (t @ CHR '']'' # r) = CHR '']'' # r"
    by (induction t) simp_all
  with a show "bracketed_timestamp s = Some (t, r)"
    by (simp add: bracketed_timestamp_def)
qed

lemma match_here_None_iff: "match_here s = None \<longleftrightarrow> bracketed_timestamp s = None"
proof -
  have "match_here s \<noteq> None \<longleftrightarrow> (\<exists>t r. s = CHR ''['' # t @ CHR '']'' # r \<and> is_timestamp t)"
    using match_here_Some [of s] by auto
  also have "\<dots> \<longleftrightarrow> bracketed_timestamp s \<noteq> None"
    using bracketed_timestamp_Some [of s] by auto
  finally show ?thesis by blast
qed

lemma timeRegex_exec_None_iff:
  "timeRegex_exec line = None \<longleftrightarrow> (\<forall>k<length line. bracketed_timestamp (drop k line) = None)"
proof (induction line)
  case Nil
  then show ?case by simp
next
  case (Cons c cs)
  have "timeRegex_exec (c # cs) = None \<longleftrightarrow>
      match_here (c # cs) = None \<and> timeRegex_exec cs = None"
    by (simp split: option.splits)
  also have "\<dots> \<longleftrightarrow> bracketed_timestamp (drop 0 (c # cs)) = None \<and>
      (\<forall>k<length cs. bracketed_timestamp (drop (Suc k) (c # cs)) = None)"
    using Cons.IH by (simp add: match_here_None_iff)
  also have "\<dots> \<longleftrightarrow> (\<forall>k<length (c # cs). bracketed_timestamp (drop k (c # cs)) = None)"
    unfolding length_Cons All_less_Suc2 ..
  finally show ?case .
qed


section \<open>The parser: continuation lines and the first line\<close>

lemma parse_example_merge:
  "parse_chunks (''[00:05] Hello'' @ [CHR 0x0A] @ ''world'') = [\<lparr>time = ''00:05'', text = ''Hello world''\<rparr>]"
  by code_simp

lemma parse_example_stray:
  "parse_chunks (''stray text'' @ [CHR 0x0A] @ ''[01:20] Next'') =
     [\<lparr>time = ''00:00'', text = ''stray text''\<rparr>, \<lparr>time = ''01:20'', text = ''Next''\<rparr>]"
  by code_simp

text \<open>
  Claim C2 speaks of a line that does not match the timestamp pattern, which is the anchored
  line pattern: white space, a bracketed timestamp, white space, the remainder. The line
  \<open>see [00:05] Hello\<close> does not match that pattern and is not blank, yet with a chunk present
  it is not appended to the last chunk: it starts a chunk of its own, because the parser
  looks for a timestamp anywhere in the line.
\<close>

theorem inner_timestamp_line_is_not_appended:
  "spec_line_pattern ''see [00:05] Hello'' = None
   \<and> trim ''see [00:05] Hello'' = ''see [00:05] Hello''
   \<and> push_line [\<lparr>time = ''00:01'', text = ''One''\<rparr>] ''see [00:05] Hello''
        = [\<lparr>time = ''00:01'', text = ''One''\<rparr>, \<lparr>time = ''00:05'', text = ''Hello''\<rparr>]"
  by code_simp

text \<open>
  Claim C2, as the code has it. A line in which no bracketed timestamp stands at any position
  (so that \<open>timeRegex\<close> finds no match) and which is not empty after trimming, read while at
  least one chunk exists, appends a space and the trimmed line to the text of the last chunk:
  the earlier chunks and the time of every chunk stay as they were. Parsing
  \<open>"[00:05] Hello\nworld"\<close> gives the single chunk 00:05 with text \<open>Hello world\<close>.
\<close>

theorem continuation_appends_to_last_chunk:
  assumes "\<forall>k<length line. bracketed_timestamp (drop k line) = None"
    and "trim line \<noteq> []" and "chunks \<noteq> []"
  shows "push_line chunks line =
           butlast chunks @ [(last chunks)\<lparr>text := text (last chunks) @ '' '' @ trim line\<rparr>]
         \<and> butlast (push_line chunks line) = butlast chunks
         \<and> map time (push_line chunks line) = map time chunks
         \<and> parse_chunks (''[00:05] Hello'' @ [CHR 0x0A] @ ''world'')
             = [\<lparr>time = ''00:05'', text = ''Hello world''\<rparr>]"
proof -
  have none: "timeRegex_exec line = None"
    using assms(1) by (simp add: timeRegex_exec_None_iff)
  have step: "push_line chunks line =
      butlast chunks @ [(last chunks)\<lparr>text := text (last chunks) @ '' '' @ trim line\<rparr>]"
    using none assms(2,3) by (rule push_line_continuation)
  have times: "map time (push_line chunks line) = map time (butlast chunks @ [last chunks])"
    unfolding step by simp
  show ?thesis
    using step times assms(3) parse_example_merge by simp
qed

theorem continuation_appends_to_last_chunk_witness:
  "timeRegex_exec ''  world, [5] '' = None \<and> trim ''  world, [5] '' = ''world, [5]''
   \<and> push_line [\<lparr>time = ''00:01'', text = ''One''\<rparr>, \<lparr>time = ''00:05'', text = ''Hello''\<rparr>]
        ''  world, [5] ''
     = [\<lparr>time = ''00:01'', text = ''One''\<rparr>, \<lparr>time = ''00:05'', text = ''Hello world, [5]''\<rparr>]"
proof -
  have a: "timeRegex_exec ''  world, [5] '' = None" by code_simp
  then have a': "\<forall>k<length ''  world, [5] ''. bracketed_timestamp (drop k ''  world, [5] '') = None"
    by (simp only: timeRegex_exec_None_iff)
  have t: "trim ''  world, [5] '' = ''world, [5]''" by code_simp
  then have b: "trim ''  world, [5] '' \<noteq> []" by simp
  have c: "[\<lparr>time = ''00:01'', text = ''One''\<rparr>, \<lparr>time = ''00:05'', text = ''Hello''\<rparr>] \<noteq> []" by simp
  show ?thesis
    using continuation_appends_to_last_chunk [OF a' b c] a t by simp
qed

lemma push_line_keeps_head:
  "\<exists>c' cs'. push_line (c # cs) line = c' # cs' \<and> time c' = time c \<and> prefix (text c) (text c')"
proof (cases "timeRegex_exec line")
  case (Some m)
  then show ?thesis by (cases m) (simp add: push_line_match)
next
  case None
  show ?thesis
  proof (cases "trim line = []")
    case True
    then show ?thesis by (simp add: push_line_blank)
  next
    case False
    have step: "push_line (c # cs) line =
        butlast (c # cs) @ [(last (c # cs))\<lparr>text := text (last (c # cs)) @ '' '' @ trim line\<rparr>]"
      using None False by (simp add: push_line_continuation)
    show ?thesis
    proof (cases cs)
      case Nil
      with step show ?thesis by simp
    next
      case (Cons d ds)
      with step show ?thesis by simp
    qed
  qed
qed

lemma foldl_push_line_keeps_head:
  "\<exists>c' cs'. foldl push_line (c # cs) ls = c' # cs' \<and> time c' = time c \<and> prefix (text c) (text c')"
proof (induction ls arbitrary: c cs)
  case Nil
  then show ?case by simp
next
  case (Cons l ls)
  from push_line_keeps_head [of c cs l] obtain c1 cs1
    where 1: "push_line (c # cs) l = c1 # cs1" "time c1 = time c" "prefix (text c) (text c1)"
    by blast
  from Cons.IH [of c1 cs1] obtain c2 cs2
    where 2: "foldl push_line (c1 # cs1) ls = c2 # cs2" "time c2 = time c1" "prefix (text c1) (text c2)"
    by blast
  from 1 2 show ?case by (auto intro: prefix_order.trans)
qed

lemma foldl_push_line_blank:
  "\<forall>l\<in>set pre. trim l = [] \<Longrightarrow> foldl push_line chunks pre = chunks"
  by (induction pre arbitrary: chunks) (simp_all add: push_line_blank)

text \<open>
  Claim C3 speaks of a first non-blank line that does not match the timestamp pattern, the
  anchored line pattern. The line \<open>see [00:05] Hello\<close> does not match it, and as the first
  non-blank line of the input it gives no chunk of time \<open>00:00\<close>: the parser finds the
  timestamp inside the line and makes the chunk 00:05 with text \<open>Hello\<close>, dropping the word
  before it.
\<close>

theorem inner_timestamp_first_line_keeps_its_time:
  "spec_line_pattern ''see [00:05] Hello'' = None
   \<and> trim ''see [00:05] Hello'' = ''see [00:05] Hello''
   \<and> parse_chunks ''see [00:05] Hello'' = [\<lparr>time = ''00:05'', text = ''Hello''\<rparr>]
   \<and> trim ''  '' = []
   \<and> parse_chunks (''  '' @ [CHR 0x0A] @ ''see [00:05] Hello'') = [\<lparr>time = ''00:05'', text = ''Hello''\<rparr>]"
  by code_simp

text \<open>
  Claim C3, as the code has it. When no bracketed timestamp stands at any position of the
  first line that is not blank (so that \<open>timeRegex\<close> finds no match), the parser makes that
  line a chunk of its own with time \<open>00:00\<close> and the trimmed line as text, rather than
  discarding it or failing: that is the chunk list once the line is read, the rest of the
  input is parsed from there, and the result starts with a chunk of time \<open>00:00\<close> whose text
  begins with the trimmed line (continuation lines that follow are appended to it). Parsing
  \<open>"stray text\n[01:20] Next"\<close> gives the two chunks 00:00 \<open>stray text\<close> and 01:20 \<open>Next\<close>.
\<close>

theorem stray_first_line_gets_zero_time:
  assumes "split_on CHR 0x0A txt = pre @ line # post"
    and "\<forall>l\<in>set pre. trim l = []"
    and "trim line \<noteq> []"
    and "\<forall>k<length line. bracketed_timestamp (drop k line) = None"
  shows "foldl push_line [] (pre @ [line]) = [\<lparr>time = ''00:00'', text = trim line\<rparr>]
         \<and> parse_chunks txt = foldl push_line [\<lparr>time = ''00:00'', text = trim line\<rparr>] post
         \<and> (\<exists>c cs. parse_chunks txt = c # cs \<and> time c = ''00:00'' \<and> prefix (trim line) (text c))
         \<and> parse_chunks (''stray text'' @ [CHR 0x0A] @ ''[01:20] Next'')
             = [\<lparr>time = ''00:00'', text = ''stray text''\<rparr>, \<lparr>time = ''01:20'', text = ''Next''\<rparr>]"
proof -
  have none: "timeRegex_exec line = None"
    using assms(4) by (simp add: timeRegex_exec_None_iff)
  have first: "foldl push_line [] (pre @ [line]) = [\<lparr>time = ''00:00'', text = trim line\<rparr>]"
    using assms(2,3) none by (simp add: foldl_push_line_blank push_line_first)
  have whole: "parse_chunks txt = foldl push_line [\<lparr>time = ''00:00'', text = trim line\<rparr>] post"
    using assms(1-3) none by (simp add: parse_chunks_def foldl_push_line_blank push_line_first)
  from foldl_push_line_keeps_head [of "\<lparr>time = ''00:00'', text = trim line\<rparr>" "[]" post]
  have "\<exists>c cs. parse_chunks txt = c # cs \<and> time c = ''00:00'' \<and> prefix (trim line) (text c)"
    unfolding whole by simp
  with first whole parse_example_stray show ?thesis by blast
qed

theorem stray_first_line_gets_zero_time_witness:
  "split_on CHR 0x0A (''  '' @ [CHR 0x0A] @ '' stray text '' @ [CHR 0x0A] @ ''more'') = [''  ''] @ '' stray text '' # [''more'']
   \<and> trim ''  '' = []
   \<and> trim '' stray text '' = ''stray text''
   \<and> timeRegex_exec '' stray text '' = None
   \<and> parse_chunks (''  '' @ [CHR 0x0A] @ '' stray text '' @ [CHR 0x0A] @ ''more'')
        = [\<lparr>time = ''00:00'', text = ''stray text more''\<rparr>]"
proof -
  have a: "split_on CHR 0x0A (''  '' @ [CHR 0x0A] @ '' stray text '' @ [CHR 0x0A] @ ''more'') = [''  ''] @ '' stray text '' # [''more'']"
    by code_simp
  have b0: "trim ''  '' = []" by code_simp
  have b: "\<forall>l\<in>set [''  '']. trim l = []" using b0 by simp
  have t: "trim '' stray text '' = ''stray text''" by code_simp
  then have c: "trim '' stray text '' \<noteq> []" by simp
  have d: "timeRegex_exec '' stray text '' = None" by code_simp
  then have d': "\<forall>k<length '' stray text ''. bracketed_timestamp (drop k '' stray text '') = None"
    by (simp only: timeRegex_exec_None_iff)
  have m: "push_line [\<lparr>time = ''00:00'', text = ''stray text''\<rparr>] ''more''
      = [\<lparr>time = ''00:00'', text = ''stray text more''\<rparr>]" by code_simp
  show ?thesis
    using stray_first_line_gets_zero_time [OF a b c d'] a b0 d t m by simp
qed


section \<open>The seek mapping and the times the parser emits\<close>

lemma decimal_no_colon: "decimal s \<Longrightarrow> CHR '':'' \<notin> set s"
  by (auto simp: decimal_def list_all_iff dest: digit_not_colon)

lemma length_split_on: "length (split_on sep t) = Suc (count_list t sep)"
proof (induction t)
  case Nil
  then show ?case by simp
next
  case (Cons c t)
  then show ?case
    using split_on_nonempty [of sep t] by (cases "split_on sep t") auto
qed

lemma timeInSeconds_three:
  assumes "decimal a" "decimal b" "decimal c"
  shows "timeInSeconds (a @ '':'' @ b @ '':'' @ c)
           = Some (decimal_value a * 3600 + decimal_value b * 60 + decimal_value c)"
proof -
  have "split_on CHR '':'' (a @ '':'' @ b @ '':'' @ c) = [a, b, c]"
    using assms by (simp add: split_on_append_sep split_on_no_sep decimal_no_colon)
  then show ?thesis using assms by (simp add: timeInSeconds_def Number_def)
qed

lemma timeInSeconds_two:
  assumes "decimal a" "decimal b"
  shows "timeInSeconds (a @ '':'' @ b) = Some (decimal_value a * 60 + decimal_value b)"
proof -
  have "split_on CHR '':'' (a @ '':'' @ b) = [a, b]"
    using assms by (simp add: split_on_append_sep split_on_no_sep decimal_no_colon)
  then show ?thesis using assms by (simp add: timeInSeconds_def Number_def)
qed

lemma timeInSeconds_other:
  assumes "count_list t CHR '':'' \<noteq> 1" "count_list t CHR '':'' \<noteq> 2"
  shows "timeInSeconds t = Some 0"
  using assms by (simp add: timeInSeconds_def length_split_on)

lemma timeInSeconds_examples:
  "timeInSeconds ''01:02:03'' = Some 3723" "timeInSeconds ''02:03'' = Some 123"
  by code_simp+

text \<open>
  Claim C4. The seek mapping splits the time string on the colon. Three numeric parts give
  \<open>parts[0] * 3600 + parts[1] * 60 + parts[2]\<close> seconds, two give \<open>parts[0] * 60 + parts[1]\<close>, and a
  string that splits into another number of parts (it has no colon, or three or more) gives
  0. \<open>"01:02:03"\<close> maps to 3723 and \<open>"02:03"\<close> to 123.
\<close>

theorem seek_mapping:
  "(decimal a \<and> decimal b \<and> decimal c \<longrightarrow>
      timeInSeconds (a @ '':'' @ b @ '':'' @ c)
        = Some (decimal_value a * 3600 + decimal_value b * 60 + decimal_value c))
   \<and> (decimal a \<and> decimal b \<longrightarrow>
      timeInSeconds (a @ '':'' @ b) = Some (decimal_value a * 60 + decimal_value b))
   \<and> (length (split_on CHR '':'' t) \<noteq> 3 \<and> length (split_on CHR '':'' t) \<noteq> 2 \<longrightarrow>
        timeInSeconds t = Some 0)
   \<and> (count_list t CHR '':'' \<noteq> 1 \<and> count_list t CHR '':'' \<noteq> 2 \<longrightarrow> timeInSeconds t = Some 0)
   \<and> timeInSeconds ''01:02:03'' = Some 3723
   \<and> timeInSeconds ''02:03'' = Some 123"
  using timeInSeconds_three [of a b c] timeInSeconds_two [of a b] timeInSeconds_other [of t]
    timeInSeconds_examples
  by (simp add: length_split_on)

theorem seek_mapping_witness:
  "decimal ''1'' \<and> decimal ''02'' \<and> decimal ''03''
   \<and> timeInSeconds ''1:02:03'' = Some 3723
   \<and> timeInSeconds ''1:02'' = Some 62
   \<and> count_list ''1:02:03:04'' CHR '':'' = 3
   \<and> timeInSeconds ''1:02:03:04'' = Some 0
   \<and> count_list ''12'' CHR '':'' = 0
   \<and> timeInSeconds ''12'' = Some 0"
proof -
  have d: "decimal ''1''" "decimal ''02''" "decimal ''03''" by code_simp+
  have v: "decimal_value ''1'' = 1" "decimal_value ''02'' = 2" "decimal_value ''03'' = 3" by code_simp+
  have c4: "count_list ''1:02:03:04'' CHR '':'' = 3" by code_simp
  have c0: "count_list ''12'' CHR '':'' = 0" by code_simp
  show ?thesis
    using seek_mapping [of "''1''" "''02''" "''03''" "''1:02:03:04''"]
      seek_mapping [of "''1''" "''02''" "''03''" "''12''"] d v c4 c0
    by simp
qed

lemma zero_time_is_timestamp: "is_timestamp ''00:00''"
  by code_simp

lemma push_line_times:
  assumes "\<forall>c\<in>set chunks. is_timestamp (time c)"
  shows "\<forall>c\<in>set (push_line chunks line). is_timestamp (time c)"
proof (cases "timeRegex_exec line")
  case (Some m)
  obtain t x where m: "m = (t, x)" by (cases m)
  with Some have "is_timestamp t" by (auto simp: timeRegex_exec_Some)
  with Some m assms show ?thesis by (simp add: push_line_match)
next
  case None
  show ?thesis
  proof (cases "trim line = []")
    case True
    with assms show ?thesis by (simp add: push_line_blank)
  next
    case False
    show ?thesis
    proof (cases "chunks = []")
      case True
      with None False show ?thesis by (simp add: push_line_first zero_time_is_timestamp)
    next
      case ne: False
      have "last chunks \<in> set chunks" using ne by simp
      moreover have "set (butlast chunks) \<subseteq> set chunks" by (auto dest: in_set_butlastD)
      ultimately show ?thesis
        using assms by (auto simp: push_line_continuation [OF None False ne])
    qed
  qed
qed

lemma foldl_push_line_times:
  "\<forall>c\<in>set chunks. is_timestamp (time c) \<Longrightarrow>
   \<forall>c\<in>set (foldl push_line chunks ls). is_timestamp (time c)"
proof (induction ls arbitrary: chunks)
  case Nil
  then show ?case by simp
next
  case (Cons l ls)
  have "\<forall>c\<in>set (push_line chunks l). is_timestamp (time c)"
    using Cons.prems by (rule push_line_times)
  then have "\<forall>c\<in>set (foldl push_line (push_line chunks l) ls). is_timestamp (time c)"
    by (rule Cons.IH)
  then show ?case by simp
qed

lemma parse_chunks_times: "c \<in> set (parse_chunks txt) \<Longrightarrow> is_timestamp (time c)"
  using foldl_push_line_times [of "[]" "split_on CHR 0x0A txt"] by (simp add: parse_chunks_def)

lemma digit_run_decimal: "digit_run 1 s \<or> digit_run 2 s \<Longrightarrow> decimal s"
  by (auto simp: digit_run_def decimal_def)

lemma is_timestamp_parts:
  assumes "is_timestamp t"
  shows "(length (split_on CHR '':'' t) = 2 \<or> length (split_on CHR '':'' t) = 3)
         \<and> (\<forall>p\<in>set (split_on CHR '':'' t). decimal p)"
proof (cases "split_on CHR '':'' t")
  case Nil
  with assms show ?thesis by (simp add: is_timestamp_def)
next
  case (Cons h ps)
  show ?thesis
  proof (cases ps)
    case Nil
    with Cons assms show ?thesis by (simp add: is_timestamp_def)
  next
    case ps: (Cons m qs)
    show ?thesis
    proof (cases qs)
      case Nil
      with Cons ps assms show ?thesis by (auto simp: is_timestamp_def intro: digit_run_decimal)
    next
      case qs: (Cons s us)
      with Cons ps assms have "us = []" by (cases us) (simp_all add: is_timestamp_def)
      with Cons ps qs assms show ?thesis by (auto simp: is_timestamp_def intro: digit_run_decimal)
    qed
  qed
qed

lemma timeInSeconds_decimal_parts:
  assumes "\<forall>p\<in>set (split_on CHR '':'' t). decimal p"
  shows "timeInSeconds t \<noteq> None"
proof -
  obtain ps where ps: "split_on CHR '':'' t = ps" by simp
  consider "length ps = 3" | "length ps = 2" | "length ps \<noteq> 3 \<and> length ps \<noteq> 2" by blast
  then show ?thesis
  proof cases
    case 1
    then obtain a b c where "ps = [a, b, c]"
      by (auto simp: length_Suc_conv numeral_3_eq_3)
    with assms ps show ?thesis by (simp add: timeInSeconds_def Number_def)
  next
    case 2
    then obtain a b where "ps = [a, b]"
      by (auto simp: length_Suc_conv numeral_2_eq_2)
    with assms ps show ?thesis by (simp add: timeInSeconds_def Number_def)
  next
    case 3
    with ps show ?thesis by (simp add: timeInSeconds_def)
  qed
qed

text \<open>
  Claim C5. The time of every chunk the parser produces splits on the colon into exactly two
  or three parts, each a non-empty run of digits; so the seek mapping never takes its
  fallback branch on such a time, and every part converts to a number.
\<close>

theorem parser_times_have_two_or_three_parts:
  assumes "c \<in> set (parse_chunks txt)"
  shows "(length (split_on CHR '':'' (time c)) = 2 \<or> length (split_on CHR '':'' (time c)) = 3)
         \<and> (\<forall>p\<in>set (split_on CHR '':'' (time c)). p \<noteq> [] \<and> list_all is_digit p)
         \<and> timeInSeconds (time c) \<noteq> None"
proof -
  have ts: "is_timestamp (time c)" using assms by (rule parse_chunks_times)
  from is_timestamp_parts [OF ts] timeInSeconds_decimal_parts [of "time c"]
  show ?thesis by (auto simp: decimal_def)
qed

theorem parser_times_have_two_or_three_parts_witness:
  "\<lparr>time = ''01:20'', text = ''Next''\<rparr> \<in> set (parse_chunks (''stray text'' @ [CHR 0x0A] @ ''[01:20] Next''))
   \<and> \<lparr>time = ''00:00'', text = ''stray text''\<rparr> \<in> set (parse_chunks (''stray text'' @ [CHR 0x0A] @ ''[01:20] Next''))
   \<and> length (split_on CHR '':'' ''01:20'') = 2
   \<and> split_on CHR '':'' ''01:20'' = [''01'', ''20'']
   \<and> timeInSeconds ''01:20'' = Some 80"
proof -
  have m: "\<lparr>time = ''01:20'', text = ''Next''\<rparr> \<in> set (parse_chunks (''stray text'' @ [CHR 0x0A] @ ''[01:20] Next''))"
    "\<lparr>time = ''00:00'', text = ''stray text''\<rparr> \<in> set (parse_chunks (''stray text'' @ [CHR 0x0A] @ ''[01:20] Next''))"
    using parse_example_stray by simp_all
  have s: "split_on CHR '':'' ''01:20'' = [''01'', ''20'']" by code_simp
  have v: "timeInSeconds ''01:20'' = Some 80" by code_simp
  show ?thesis
    using parser_times_have_two_or_three_parts [OF m(1)] m s v by simp
qed


section \<open>The search filter and case-insensitive containment\<close>

lemma startsWith_iff: "startsWith s q \<longleftrightarrow> (\<exists>r. s = q @ r)"
  unfolding startsWith_def
  by (metis append_eq_conv_conj append_take_drop_id)

lemma includes_str_iff: "includes_str s q \<longleftrightarrow> (\<exists>front back. s = front @ q @ back)"
proof (induction s)
  case Nil
  then show ?case by auto
next
  case (Cons c cs)
  show ?case
  proof
    assume "includes_str (c # cs) q"
    then consider "startsWith (c # cs) q" | "includes_str cs q" by auto
    then show "\<exists>front back. c # cs = front @ q @ back"
    proof cases
      case 1
      then obtain r where "c # cs = [] @ q @ r" by (auto simp: startsWith_iff)
      then show ?thesis by blast
    next
      case 2
      with Cons.IH obtain b a where "cs = b @ q @ a" by blast
      then have "c # cs = (c # b) @ q @ a" by simp
      then show ?thesis by blast
    qed
  next
    assume "\<exists>front back. c # cs = front @ q @ back"
    then obtain b a where ba: "c # cs = b @ q @ a" by blast
    show "includes_str (c # cs) q"
    proof (cases b)
      case Nil
      with ba have "startsWith (c # cs) q" by (auto simp: startsWith_iff)
      then show ?thesis by simp
    next
      case (Cons b0 b')
      with ba have "cs = b' @ q @ a" by simp
      with Cons.IH have "includes_str cs q" by blast
      then show ?thesis by simp
    qed
  qed
qed

lemma includes_str_empty: "includes_str s []"
  by (induction s) (simp_all add: startsWith_def)

lemma lower_unit_latin1:
  "u < 256 \<Longrightarrow> lower_unit front u back =
     [if (65 \<le> u \<and> u \<le> 90) \<or> (192 \<le> u \<and> u \<le> 214) \<or> (216 \<le> u \<and> u \<le> 222) then u + 32 else u]"
  by (simp add: lower_unit_def)

lemma lower_from_latin1:
  "\<forall>u\<in>set s. u < 256 \<Longrightarrow>
   lower_from front s =
     map (\<lambda>u. if (65 \<le> u \<and> u \<le> 90) \<or> (192 \<le> u \<and> u \<le> 214) \<or> (216 \<le> u \<and> u \<le> 222)
              then u + 32 else u) s"
proof (induction s arbitrary: front)
  case Nil
  then show ?case by simp
next
  case (Cons u s)
  from Cons.prems have "u < 256" "\<forall>v\<in>set s. v < 256" by simp_all
  then show ?case
    using Cons.IH [of "front @ [u]"] lower_unit_latin1 [of u front s]
    by (simp split del: if_split)
qed

lemma lower_latin1_eq_iff:
  "((if (65 \<le> a \<and> a \<le> 90) \<or> (192 \<le> a \<and> a \<le> 214) \<or> (216 \<le> a \<and> a \<le> 222) then a + 32 else a)
     = (if (65 \<le> b \<and> b \<le> 90) \<or> (192 \<le> b \<and> b \<le> 214) \<or> (216 \<le> b \<and> b \<le> 222) then b + 32 else (b::nat)))
   \<longleftrightarrow> same_letter a b"
  unfolding same_letter_def capital_of_def by (auto split: if_splits)

lemma map_lower_latin1_eq_iff:
  "map (\<lambda>u. if (65 \<le> u \<and> u \<le> 90) \<or> (192 \<le> u \<and> u \<le> 214) \<or> (216 \<le> u \<and> u \<le> 222)
              then u + 32 else u) s
   = map (\<lambda>u. if (65 \<le> u \<and> u \<le> 90) \<or> (192 \<le> u \<and> u \<le> 214) \<or> (216 \<le> u \<and> u \<le> 222)
              then u + 32 else (u::nat)) q
   \<longleftrightarrow> list_all2 same_letter s q"
proof (induction s q rule: list_induct2')
  case (4 x xs y ys)
  then show ?case
    using lower_latin1_eq_iff [of x y] by (simp split del: if_split)
qed simp_all


lemma toLowerCase_latin1:
  "\<forall>u\<in>set s. u < 256 \<Longrightarrow>
   toLowerCase s =
     Some (map (\<lambda>u. if (65 \<le> u \<and> u \<le> 90) \<or> (192 \<le> u \<and> u \<le> 214) \<or> (216 \<le> u \<and> u \<le> 222)
                    then u + 32 else u) s)"
  by (simp add: toLowerCase_def list_all_iff modelled_unit_def lower_from_latin1)

lemma includes_mapped_iff:
  assumes eq: "\<And>m. map f m = map f q \<longleftrightarrow> list_all2 same_letter m q"
  shows "includes_str (map f t) (map f q) \<longleftrightarrow> ci_substring q t"
proof
  assume "includes_str (map f t) (map f q)"
  then obtain b a where ba: "map f t = b @ map f q @ a"
    by (auto simp: includes_str_iff)
  define n where "n = length b"
  define k where "k = length q"
  have t: "t = take n t @ take k (drop n t) @ drop k (drop n t)"
    by (simp only: append_take_drop_id)
  have "map f (take k (drop n t)) = take k (drop n (map f t))"
    by (simp add: take_map drop_map)
  also have "\<dots> = map f q" using ba by (simp add: n_def k_def)
  finally have "list_all2 same_letter (take k (drop n t)) q"
    by (simp add: eq)
  with t show "ci_substring q t" unfolding ci_substring_def by blast
next
  assume "ci_substring q t"
  then obtain b m a where t: "t = b @ m @ a" and m: "list_all2 same_letter m q"
    unfolding ci_substring_def by blast
  from m have "map f m = map f q" by (simp add: eq)
  with t have "map f t = map f b @ map f q @ map f a" by simp
  then show "includes_str (map f t) (map f q)"
    unfolding includes_str_iff by blast
qed

lemma chunk_matches_latin1:
  assumes "\<forall>u\<in>set (text c). u < 256" "\<forall>u\<in>set q. u < 256"
  shows "chunk_matches q c = Some (ci_substring q (text c))"
  using assms includes_mapped_iff [OF map_lower_latin1_eq_iff, where q = q and t = "text c"]
  by (simp add: chunk_matches_def toLowerCase_latin1)

lemma filter_modelled_total:
  "\<forall>x\<in>set xs. p x = Some (P x) \<Longrightarrow> filter_modelled p xs = Some (filter P xs)"
  by (induction xs) simp_all

lemma filter_modelled_Some:
  "filter_modelled p xs = Some r \<Longrightarrow> r = filter (\<lambda>x. p x = Some True) xs"
  by (induction xs arbitrary: r) (auto split: option.splits if_splits)

lemma chunk_matches_True_iff:
  "chunk_matches q c = Some True \<longleftrightarrow>
     (\<exists>t' q'. toLowerCase (text c) = Some t' \<and> toLowerCase q = Some q' \<and>
        (\<exists>front back. t' = front @ q' @ back))"
  by (auto simp: chunk_matches_def includes_str_iff split: option.splits)

lemma chunk_matches_empty_query:
  "list_all modelled_unit (text c) \<Longrightarrow> chunk_matches [] c = Some True"
  by (simp add: chunk_matches_def toLowerCase_def includes_str_empty)

lemma search_example:
  "filteredTranscription
     [\<lparr>time = t1, text = map of_char ''Hello''\<rparr>, \<lparr>time = t2, text = map of_char ''World''\<rparr>]
     (map of_char ''he'')
   = Some [\<lparr>time = t1, text = map of_char ''Hello''\<rparr>]"
proof -
  have l: "toLowerCase (map of_char ''Hello'') = Some (map of_char ''hello'')"
    "toLowerCase (map of_char ''World'') = Some (map of_char ''world'')"
    "toLowerCase (map of_char ''he'') = Some (map of_char ''he'')" by code_simp+
  have i: "includes_str (map of_char ''hello'' :: nat list) (map of_char ''he'')"
    "\<not> includes_str (map of_char ''world'' :: nat list) (map of_char ''he'')" by code_simp+
  have "chunk_matches (map of_char ''he'') \<lparr>time = t1, text = map of_char ''Hello''\<rparr> = Some True"
    "chunk_matches (map of_char ''he'') \<lparr>time = t2, text = map of_char ''World''\<rparr> = Some False"
    using l i by (simp_all add: chunk_matches_def del: includes_str.simps list.map)
  then show ?thesis by (simp add: filteredTranscription_def del: list.map)
qed

text \<open>
  Claim C6, as the code has it. The search filter returns, in their original order, exactly
  the chunks whose lower-cased text contains the lower-cased query. When the texts and the
  query hold only code units 0 to 255 (ASCII and Latin-1), these are exactly the chunks whose
  text contains the query as a case-insensitive substring. The empty query returns all chunks
  unchanged. The query \<open>he\<close> over chunks with the texts \<open>Hello\<close> and \<open>World\<close> returns only the
  first.
\<close>

theorem search_filter:
  "(filteredTranscription chunks q = Some r \<longrightarrow>
      subseq r chunks \<and>
      r = filter (\<lambda>c. \<exists>t' q'. toLowerCase (text c) = Some t' \<and> toLowerCase q = Some q' \<and>
                        (\<exists>front back. t' = front @ q' @ back)) chunks)
   \<and> ((\<forall>c\<in>set chunks. \<forall>u\<in>set (text c). u < 256) \<and> (\<forall>u\<in>set q. u < 256) \<longrightarrow>
        filteredTranscription chunks q = Some (filter (\<lambda>c. ci_substring q (text c)) chunks))
   \<and> ((\<forall>c\<in>set chunks. list_all modelled_unit (text c)) \<longrightarrow>
        filteredTranscription chunks [] = Some chunks)
   \<and> filteredTranscription
        [\<lparr>time = t1, text = map of_char ''Hello''\<rparr>, \<lparr>time = t2, text = map of_char ''World''\<rparr>]
        (map of_char ''he'')
      = Some [\<lparr>time = t1, text = map of_char ''Hello''\<rparr>]"
proof -
  have a: "filteredTranscription chunks q = Some r \<longrightarrow>
      subseq r chunks \<and>
      r = filter (\<lambda>c. \<exists>t' q'. toLowerCase (text c) = Some t' \<and> toLowerCase q = Some q' \<and>
                        (\<exists>front back. t' = front @ q' @ back)) chunks"
  proof
    assume "filteredTranscription chunks q = Some r"
    then have r: "r = filter (\<lambda>c. chunk_matches q c = Some True) chunks"
      unfolding filteredTranscription_def by (rule filter_modelled_Some)
    then have "subseq r chunks" by simp
    with r show "subseq r chunks \<and>
      r = filter (\<lambda>c. \<exists>t' q'. toLowerCase (text c) = Some t' \<and> toLowerCase q = Some q' \<and>
                        (\<exists>front back. t' = front @ q' @ back)) chunks"
      by (simp add: chunk_matches_True_iff)
  qed
  have b: "(\<forall>c\<in>set chunks. \<forall>u\<in>set (text c). u < 256) \<and> (\<forall>u\<in>set q. u < 256) \<longrightarrow>
        filteredTranscription chunks q = Some (filter (\<lambda>c. ci_substring q (text c)) chunks)"
    unfolding filteredTranscription_def
    by (auto intro!: filter_modelled_total simp: chunk_matches_latin1)
  have c: "(\<forall>c\<in>set chunks. list_all modelled_unit (text c)) \<longrightarrow>
        filteredTranscription chunks [] = Some chunks"
  proof
    assume "\<forall>c\<in>set chunks. list_all modelled_unit (text c)"
    then have "\<forall>c\<in>set chunks. chunk_matches [] c = Some ((\<lambda>_. True) c)"
      by (simp add: chunk_matches_empty_query)
    then have "filter_modelled (chunk_matches []) chunks = Some (filter (\<lambda>_. True) chunks)"
      by (rule filter_modelled_total)
    then show "filteredTranscription chunks [] = Some chunks"
      by (simp add: filteredTranscription_def)
  qed
  from a b c search_example show ?thesis by blast
qed

theorem search_filter_witness:
  "filteredTranscription
     [\<lparr>time = map of_char ''00:01'', text = map of_char ''Say HELLO''\<rparr>,
      \<lparr>time = map of_char ''00:02'', text = map of_char ''World''\<rparr>,
      \<lparr>time = map of_char ''00:03'', text = map of_char ''the end''\<rparr>] (map of_char ''He'')
     = Some [\<lparr>time = map of_char ''00:01'', text = map of_char ''Say HELLO''\<rparr>,
             \<lparr>time = map of_char ''00:03'', text = map of_char ''the end''\<rparr>]
   \<and> filter (\<lambda>c. ci_substring (map of_char ''He'') (text c))
        [\<lparr>time = map of_char ''00:01'', text = map of_char ''Say HELLO''\<rparr>,
         \<lparr>time = map of_char ''00:02'', text = map of_char ''World''\<rparr>,
         \<lparr>time = map of_char ''00:03'', text = map of_char ''the end''\<rparr>]
     = [\<lparr>time = map of_char ''00:01'', text = map of_char ''Say HELLO''\<rparr>,
        \<lparr>time = map of_char ''00:03'', text = map of_char ''the end''\<rparr>]
   \<and> filteredTranscription [\<lparr>time = map of_char ''00:01'', text = [931, 913, 931]\<rparr>] [] 
     = Some [\<lparr>time = map of_char ''00:01'', text = [931, 913, 931]\<rparr>]"
proof -
  let ?cs = "[\<lparr>time = map of_char ''00:01'', text = map of_char ''Say HELLO''\<rparr>,
      \<lparr>time = map of_char ''00:02'', text = map of_char ''World''\<rparr>,
      \<lparr>time = map of_char ''00:03'', text = map of_char ''the end''\<rparr>] :: nat TranscriptionChunk list"
  let ?g = "[\<lparr>time = map of_char ''00:01'', text = [931, 913, 931]\<rparr>] :: nat TranscriptionChunk list"
  have e: "filteredTranscription ?cs (map of_char ''He'')
     = Some [\<lparr>time = map of_char ''00:01'', text = map of_char ''Say HELLO''\<rparr>,
             \<lparr>time = map of_char ''00:03'', text = map of_char ''the end''\<rparr>]"
    by code_simp
  have h: "\<forall>c\<in>set ?cs. \<forall>u\<in>set (text c). u < 256" "\<forall>u\<in>set (map of_char ''He'' :: nat list). u < 256"
    by simp_all
  have m: "\<forall>c\<in>set ?g. list_all modelled_unit (text c)"
    by (simp add: modelled_unit_def)
  from search_filter [of ?cs "map of_char ''He''"] h e
  have 1: "filter (\<lambda>c. ci_substring (map of_char ''He'') (text c)) ?cs
     = [\<lparr>time = map of_char ''00:01'', text = map of_char ''Say HELLO''\<rparr>,
        \<lparr>time = map of_char ''00:03'', text = map of_char ''the end''\<rparr>]"
    by (simp del: list.map)
  from search_filter [of ?g "[]"] m have 2: "filteredTranscription ?g [] = Some ?g" by blast
  from e 1 2 show ?thesis by blast
qed

text \<open>
  Claim C6 says that the filter returns every chunk whose text contains the query as a
  case-insensitive substring, for every text and query. The text of a capital alpha and a
  capital sigma (U+0391, U+03A3) contains the query of one capital sigma as it stands, yet
  the filter returns nothing: at the end of the word the sigma of the text is lower-cased to
  the final sigma U+03C2, the sigma of the query to the medial sigma U+03C3.
\<close>

theorem final_sigma_hides_the_query:
  "toLowerCase [913, 931] = Some [945, 962]
   \<and> toLowerCase [931] = Some [963]
   \<and> [913, 931] = [913] @ [931] @ ([] :: nat list)
   \<and> ci_substring [931] [913, 931]
   \<and> filteredTranscription [\<lparr>time = map of_char ''00:01'', text = [913, 931]\<rparr>] [931] = Some []"
proof -
  have a: "toLowerCase [913, 931] = Some [945, 962]" "toLowerCase [931] = Some [963]"
    by code_simp+
  have b: "[913, 931] = [913] @ [931] @ ([] :: nat list)" by simp
  have "list_all2 same_letter [931] [931]" by (simp add: same_letter_def)
  with b have c: "ci_substring [931] [913, 931]" unfolding ci_substring_def by blast
  have d: "filteredTranscription [\<lparr>time = map of_char ''00:01'', text = [913, 931]\<rparr>] [931] = Some []"
    by code_simp
  from a b c d show ?thesis by blast
qed


section \<open>The responses of the proxy\<close>

lemma proxy_audio_route_eq_handler:
  "proxy_audio_route fetch req = handler fetch req (isolation_headers new_response)"
  by (simp add: proxy_audio_route_def handler_def Let_def)

lemma map_of_without: "map_of (filter (\<lambda>h. fst h \<noteq> k) hs) k = None"
  by (induction hs) auto

lemma setHeader_lookup: "map_of (headers (setHeader k v res)) k = Some v"
  by (simp add: setHeader_def map_add_def map_of_without)

lemma setHeader_status_body: "status (setHeader k v res) = status res" "body (setHeader k v res) = body res"
  by (simp_all add: setHeader_def)

lemma fresh_responses:
  "status new_response = 200" "map_of (headers new_response) ''Content-Type'' = None"
  "status (isolation_headers new_response) = 200"
  "map_of (headers (isolation_headers new_response)) ''Content-Type'' = None"
  by (simp_all add: new_response_def isolation_headers_def setHeader_def)

lemma handler_missing_url:
  "query_url req = None \<or> query_url req = Some [] \<Longrightarrow>
   handler fetch req res = status_json 400 ''URL is required'' res"
  by (auto simp: handler_def)

lemma handler_fetch_throws:
  "query_url req = Some u \<Longrightarrow> u \<noteq> [] \<Longrightarrow> fetch u = Fetch_throws \<Longrightarrow>
   handler fetch req res = status_json 500 ''Failed to fetch audio'' res"
  by (simp add: handler_def)

lemma handler_not_ok:
  "query_url req = Some u \<Longrightarrow> u \<noteq> [] \<Longrightarrow> fetch u = Fetch_resolves r \<Longrightarrow> \<not> ok r \<Longrightarrow>
   handler fetch req res = status_json (up_status r) ''Failed to fetch audio'' res"
  by (simp add: handler_def)

lemma handler_body_fails:
  "query_url req = Some u \<Longrightarrow> u \<noteq> [] \<Longrightarrow> fetch u = Fetch_resolves r \<Longrightarrow> ok r \<Longrightarrow>
   up_arrayBuffer r = None \<Longrightarrow>
   status (handler fetch req res) = 500 \<and>
   body (handler fetch req res) = Some (Json_error ''Failed to fetch audio'')"
  by (simp add: handler_def status_json_def Let_def split: option.splits)

lemma handler_success:
  assumes "query_url req = Some u" "u \<noteq> []" "fetch u = Fetch_resolves r" "ok r"
    "up_arrayBuffer r = Some bytes"
  shows "status (handler fetch req res) = status res"
    and "body (handler fetch req res) = Some (Buffer bytes)"
    and "map_of (headers (handler fetch req res)) ''Content-Type'' =
           (case up_content_type r of
              Some ct \<Rightarrow> if ct \<noteq> [] then Some ct else map_of (headers res) ''Content-Type''
            | None \<Rightarrow> map_of (headers res) ''Content-Type'')"
  using assms
  by (simp_all add: handler_def send_def Let_def setHeader_lookup setHeader_status_body
      split: option.splits)

text \<open>
  Claim C7. For the serverless \<open>handler\<close> and for the Express route alike: a request without
  the \<open>url\<close> parameter is answered with status 400 and the JSON body
  \<open>{error: "URL is required"}\<close>; an upstream answer that is not ok is passed on with its own
  status and a JSON error body; an exception (the fetch throws, or reading the body fails)
  gives status 500 and a JSON error body; otherwise the status is 200, the body is the
  fetched bytes and the \<open>Content-Type\<close> header is the upstream one (none is written when the
  upstream has none or an empty one).
\<close>

theorem proxy_audio_responses:
  assumes "res = handler fetch req new_response \<or> res = proxy_audio_route fetch req"
  shows "(query_url req = None \<longrightarrow>
            status res = 400 \<and> body res = Some (Json_error ''URL is required''))
       \<and> (query_url req = Some u \<and> u \<noteq> [] \<and> fetch u = Fetch_resolves r \<and> \<not> ok r \<longrightarrow>
            status res = up_status r \<and> body res = Some (Json_error ''Failed to fetch audio''))
       \<and> (query_url req = Some u \<and> u \<noteq> [] \<and>
            (fetch u = Fetch_throws \<or> (fetch u = Fetch_resolves r \<and> ok r \<and> up_arrayBuffer r = None)) \<longrightarrow>
            status res = 500 \<and> body res = Some (Json_error ''Failed to fetch audio''))
       \<and> (query_url req = Some u \<and> u \<noteq> [] \<and> fetch u = Fetch_resolves r \<and> ok r \<and>
            up_arrayBuffer r = Some bytes \<longrightarrow>
            status res = 200 \<and> body res = Some (Buffer bytes) \<and>
            map_of (headers res) ''Content-Type'' =
              (case up_content_type r of
                 Some ct \<Rightarrow> if ct \<noteq> [] then Some ct else None
               | None \<Rightarrow> None))"
proof -
  from assms obtain res0 where res: "res = handler fetch req res0"
    and fresh: "status res0 = 200" "map_of (headers res0) ''Content-Type'' = None"
    using fresh_responses by (auto simp: proxy_audio_route_eq_handler)
  have 1: "query_url req = None \<longrightarrow>
            status res = 400 \<and> body res = Some (Json_error ''URL is required'')"
    by (simp add: res handler_missing_url status_json_def)
  have 2: "query_url req = Some u \<and> u \<noteq> [] \<and> fetch u = Fetch_resolves r \<and> \<not> ok r \<longrightarrow>
            status res = up_status r \<and> body res = Some (Json_error ''Failed to fetch audio'')"
    by (simp add: res handler_not_ok status_json_def)
  have 3: "query_url req = Some u \<and> u \<noteq> [] \<and>
            (fetch u = Fetch_throws \<or> (fetch u = Fetch_resolves r \<and> ok r \<and> up_arrayBuffer r = None)) \<longrightarrow>
            status res = 500 \<and> body res = Some (Json_error ''Failed to fetch audio'')"
    using handler_body_fails [of req u fetch r res0]
    by (auto simp: res handler_fetch_throws status_json_def)
  have 4: "query_url req = Some u \<and> u \<noteq> [] \<and> fetch u = Fetch_resolves r \<and> ok r \<and>
            up_arrayBuffer r = Some bytes \<longrightarrow>
            status res = 200 \<and> body res = Some (Buffer bytes) \<and>
            map_of (headers res) ''Content-Type'' =
              (case up_content_type r of
                 Some ct \<Rightarrow> if ct \<noteq> [] then Some ct else None
               | None \<Rightarrow> None)"
    using handler_success [of req u fetch r bytes res0] fresh
    by (auto simp: res split: option.splits)
  from 1 2 3 4 show ?thesis by blast
qed


theorem proxy_audio_responses_witness:
  "status (handler (\<lambda>u. Fetch_throws) \<lparr>query_url = None\<rparr> new_response) = 400
   \<and> body (proxy_audio_route (\<lambda>u. Fetch_throws) \<lparr>query_url = None\<rparr>) = Some (Json_error ''URL is required'')
   \<and> status (handler (\<lambda>u. Fetch_resolves \<lparr>up_status = 404, up_content_type = Some ''text/html'',
         up_arrayBuffer = Some ''gone''\<rparr>) \<lparr>query_url = Some ''http://a/b.mp3''\<rparr> new_response) = 404
   \<and> status (proxy_audio_route (\<lambda>u. Fetch_throws) \<lparr>query_url = Some ''http://a/b.mp3''\<rparr>) = 500
   \<and> body (proxy_audio_route (\<lambda>u. Fetch_resolves \<lparr>up_status = 200, up_content_type = Some ''audio/mpeg'',
         up_arrayBuffer = Some ''ID3''\<rparr>) \<lparr>query_url = Some ''http://a/b.mp3''\<rparr>) = Some (Buffer ''ID3'')
   \<and> map_of (headers (proxy_audio_route (\<lambda>u. Fetch_resolves \<lparr>up_status = 200,
         up_content_type = Some ''audio/mpeg'', up_arrayBuffer = Some ''ID3''\<rparr>)
         \<lparr>query_url = Some ''http://a/b.mp3''\<rparr>)) ''Content-Type'' = Some ''audio/mpeg''"
proof -
  let ?none = "\<lparr>query_url = None\<rparr>"
  let ?req = "\<lparr>query_url = Some ''http://a/b.mp3''\<rparr>"
  let ?gone = "\<lparr>up_status = 404, up_content_type = Some ''text/html'', up_arrayBuffer = Some ''gone''\<rparr>"
  let ?good = "\<lparr>up_status = 200, up_content_type = Some ''audio/mpeg'', up_arrayBuffer = Some ''ID3''\<rparr>"
  have okg: "ok ?good" "\<not> ok ?gone" by (simp_all add: ok_def)
  note a = proxy_audio_responses [of "handler (\<lambda>u. Fetch_throws) ?none new_response"
      "\<lambda>u. Fetch_throws" ?none "[]" ?gone "[]"]
  note b = proxy_audio_responses [of "proxy_audio_route (\<lambda>u. Fetch_throws) ?none"
      "\<lambda>u. Fetch_throws" ?none "[]" ?gone "[]"]
  note c = proxy_audio_responses [of "handler (\<lambda>u. Fetch_resolves ?gone) ?req new_response"
      "\<lambda>u. Fetch_resolves ?gone" ?req "''http://a/b.mp3''" ?gone "[]"]
  note d = proxy_audio_responses [of "proxy_audio_route (\<lambda>u. Fetch_throws) ?req"
      "\<lambda>u. Fetch_throws" ?req "''http://a/b.mp3''" ?gone "[]"]
  note e = proxy_audio_responses [of "proxy_audio_route (\<lambda>u. Fetch_resolves ?good) ?req"
      "\<lambda>u. Fetch_resolves ?good" ?req "''http://a/b.mp3''" ?good "''ID3''"]
  show ?thesis
    using a b c d e okg by simp
qed


section \<open>The actions of the component\<close>

lemma progress_step_range:
  assumes mono: "\<forall>x y. x \<le> y \<longrightarrow> fl x \<le> fl y"
    and fx: "fl 0 = 0" "fl (9 / 2) = 9 / 2" "fl 90 = 90" "fl (189 / 2) = 189 / 2"
    and p: "0 \<le> p" "p \<le> 189 / 2"
  shows "0 \<le> progress_step fl p \<and> progress_step fl p \<le> 189 / 2"
proof (cases "p \<ge> 90")
  case True
  with p show ?thesis by (simp add: progress_step_def)
next
  case False
  have d: "0 \<le> fl (90 - p)" "fl (90 - p) \<le> 90"
  proof -
    have "fl 0 \<le> fl (90 - p)" using mono False by simp
    then show "0 \<le> fl (90 - p)" using fx(1) by simp
    have "fl (90 - p) \<le> fl 90" using mono p(1) by simp
    then show "fl (90 - p) \<le> 90" using fx(3) by simp
  qed
  have q: "fl (fl (90 - p) / 20) \<le> 9 / 2"
  proof -
    have "fl (90 - p) / 20 \<le> 9 / 2" using d(2) by simp
    then have "fl (fl (90 - p) / 20) \<le> fl (9 / 2)" using mono by blast
    then show ?thesis using fx(2) by simp
  qed
  define increment where "increment = max (1 / 2) (fl (fl (90 - p) / 20))"
  have inc: "1 / 2 \<le> increment" "increment \<le> 9 / 2"
    using q by (simp_all add: increment_def)
  have lo: "0 \<le> fl (p + increment)"
  proof -
    have "0 \<le> p + increment" using p(1) inc(1) by simp
    then have "fl 0 \<le> fl (p + increment)" using mono by blast
    then show ?thesis using fx(1) by simp
  qed
  have hi: "fl (p + increment) \<le> 189 / 2"
  proof -
    have "p + increment \<le> 189 / 2" using False inc(2) by simp
    then have "fl (p + increment) \<le> fl (189 / 2)" using mono by blast
    then show ?thesis using fx(4) by simp
  qed
  have "progress_step fl p = fl (p + increment)"
    using False by (simp add: progress_step_def increment_def Let_def)
  with lo hi show ?thesis by simp
qed

lemma progress_iterates_range:
  assumes mono: "\<forall>x y. x \<le> y \<longrightarrow> fl x \<le> fl y"
    and fx: "fl 0 = 0" "fl (9 / 2) = 9 / 2" "fl 90 = 90" "fl (189 / 2) = 189 / 2"
  shows "0 \<le> (progress_step fl ^^ n) 0 \<and> (progress_step fl ^^ n) 0 \<le> 189 / 2"
proof (induction n)
  case 0
  then show ?case by simp
next
  case (Suc n)
  then show ?case
    using progress_step_range [OF mono fx, of "(progress_step fl ^^ n) 0"] by simp
qed

lemma interval_fires_progress:
  "transcriptionProgress ((interval_fires fl ^^ n) s) = (progress_step fl ^^ n) (transcriptionProgress s)"
proof (induction n)
  case 0
  then show ?case by simp
next
  case (Suc n)
  then show ?case by (simp add: interval_fires_def)
qed

lemma transcribe_settle_progress:
  "transcriptionProgress (fst (transcribe_settle result s)) =
     (case result of Resolved t \<Rightarrow> 100 | _ \<Rightarrow> transcriptionProgress s)"
  by (simp add: transcribe_settle_def split: generate_result.splits)

text \<open>
  Claim C8. Started at 0, the simulated progress is strictly below 100 after any number of
  firings of the interval, for every rounding \<open>fl\<close> that is monotone and leaves the doubles
  0, 4.5, 90 and 94.5 unchanged (as rounding to the nearest double does; exact arithmetic is
  the case where \<open>fl\<close> is the identity). So the progress of a pending transcription is below 100,
  and when \<open>handleTranscribe\<close> has run with an audio file loaded, the progress is 100 exactly
  when the request resolved to a response.
\<close>

theorem simulated_progress_below_100:
  assumes "\<forall>x y. x \<le> y \<longrightarrow> fl x \<le> fl y"
    and "fl 0 = 0" "fl (9 / 2) = 9 / 2" "fl 90 = 90" "fl (189 / 2) = 189 / 2"
  shows "(progress_step fl ^^ n) 0 < 100
       \<and> transcriptionProgress ((interval_fires fl ^^ n) (transcribe_begin s)) < 100
       \<and> (audioFile s \<noteq> None \<longrightarrow>
            (transcriptionProgress (fst (handleTranscribe fl n result s)) = 100
               \<longleftrightarrow> (\<exists>t. result = Resolved t)))"
proof -
  have r: "(progress_step fl ^^ n) 0 \<le> 189 / 2"
    using progress_iterates_range [OF assms] by blast
  then have a: "(progress_step fl ^^ n) 0 < 100" by simp
  have pend: "transcriptionProgress ((interval_fires fl ^^ n) (transcribe_begin s))
      = (progress_step fl ^^ n) 0"
    by (simp add: interval_fires_progress transcribe_begin_def)
  have c: "audioFile s \<noteq> None \<longrightarrow>
            (transcriptionProgress (fst (handleTranscribe fl n result s)) = 100
               \<longleftrightarrow> (\<exists>t. result = Resolved t))"
  proof
    assume "audioFile s \<noteq> None"
    then obtain f where "audioFile s = Some f" by blast
    then have "transcriptionProgress (fst (handleTranscribe fl n result s)) =
        (case result of Resolved t \<Rightarrow> 100 | _ \<Rightarrow> (progress_step fl ^^ n) 0)"
      by (simp add: handleTranscribe_def transcribe_settle_progress pend split: generate_result.splits)
    then show "transcriptionProgress (fst (handleTranscribe fl n result s)) = 100
               \<longleftrightarrow> (\<exists>t. result = Resolved t)"
      using a by (cases result) auto
  qed
  from a pend c show ?thesis by simp
qed

theorem simulated_progress_below_100_witness:
  "id (9 / 2 :: real) = 9 / 2
   \<and> (progress_step id ^^ 2) 0 = 351 / 40
   \<and> (progress_step id ^^ 2) 0 < 100
   \<and> transcriptionProgress (fst (handleTranscribe id 2 Rejected
        (initial_state\<lparr>audioFile := Some \<lparr>blob_type = ''audio/mp3'', blob_data = ''ID3''\<rparr>\<rparr>))) \<noteq> 100
   \<and> transcriptionProgress (fst (handleTranscribe id 2 (Resolved (Some ''[00:01] Hi''))
        (initial_state\<lparr>audioFile := Some \<lparr>blob_type = ''audio/mp3'', blob_data = ''ID3''\<rparr>\<rparr>))) = 100"
proof -
  have m: "\<forall>x y::real. x \<le> y \<longrightarrow> id x \<le> id y" by simp
  have f: "id (0::real) = 0" "id (9 / 2 :: real) = 9 / 2" "id (90::real) = 90"
    "id (189 / 2 :: real) = 189 / 2" by simp_all
  have v: "(progress_step id ^^ 2) 0 = 351 / 40"
    by (simp add: numeral_2_eq_2 progress_step_def)
  let ?s = "initial_state\<lparr>audioFile := Some \<lparr>blob_type = ''audio/mp3'', blob_data = ''ID3''\<rparr>\<rparr>"
  have af: "audioFile ?s \<noteq> None" by simp
  show ?thesis
    using simulated_progress_below_100 [OF m f, of 2 ?s Rejected]
      simulated_progress_below_100 [OF m f, of 2 ?s "Resolved (Some ''[00:01] Hi'')"] v af
    by (simp add: id_def)
qed

text \<open>
  Claim C9 says that an action whose input is missing is rejected with a message the user
  sees. On the initial state, where the URL is empty and no audio is loaded, each of the three
  actions returns with no effect at all: no \<open>alert\<close> is raised (and nothing is logged).
\<close>

theorem missing_input_shows_no_message:
  "inputUrl initial_state = []
   \<and> audioFile initial_state = None
   \<and> snd (handleUrlSubmit Request_throws [] initial_state) = []
   \<and> snd (handleTranscribe id 0 Rejected initial_state) = []
   \<and> snd (handleConvert [] Convert_fails [] initial_state) = []"
  by (simp add: initial_state_def handleUrlSubmit_def handleTranscribe_def handleConvert_def)

text \<open>
  Claim C9, as the code has it. An invocation of the URL-load action with an empty URL, or
  of the transcribe or convert action with no audio file loaded, returns at once without any
  message and causes no state change: the state after the invocation is the state before,
  whatever the proxy, the model or the converter would have answered.
\<close>

theorem missing_input_is_silent_noop:
  "(inputUrl s = [] \<longrightarrow> handleUrlSubmit reply objectUrl s = (s, []))
   \<and> (audioFile s = None \<longrightarrow> handleTranscribe fl firings result s = (s, []))
   \<and> (audioFile s = None \<longrightarrow> handleConvert reports converted objectUrl s = (s, []))"
  by (simp add: handleUrlSubmit_def handleTranscribe_def handleConvert_def)

theorem missing_input_is_silent_noop_witness:
  "inputUrl initial_state = [] \<and> audioFile initial_state = None
   \<and> handleUrlSubmit (Reply True (Some \<lparr>blob_type = ''audio/mp3'', blob_data = ''ID3''\<rparr>)) ''blob:1'' initial_state
       = (initial_state, [])
   \<and> handleTranscribe id 5 (Resolved (Some ''[00:01] Hi'')) initial_state = (initial_state, [])
   \<and> handleConvert [50] (Converted \<lparr>blob_type = ''audio/aac'', blob_data = ''x''\<rparr>) ''blob:2'' initial_state
       = (initial_state, [])"
proof -
  have a: "inputUrl initial_state = []" "audioFile initial_state = None"
    by (simp_all add: initial_state_def)
  show ?thesis
    using missing_input_is_silent_noop [of initial_state
        "Reply True (Some \<lparr>blob_type = ''audio/mp3'', blob_data = ''ID3''\<rparr>)" "''blob:1''"
        id 5 "Resolved (Some ''[00:01] Hi'')" "[50]"
        "Converted \<lparr>blob_type = ''audio/aac'', blob_data = ''x''\<rparr>"]
      missing_input_is_silent_noop [of initial_state
        "Reply True (Some \<lparr>blob_type = ''audio/mp3'', blob_data = ''ID3''\<rparr>)" "''blob:2''"
        id 5 "Resolved (Some ''[00:01] Hi'')" "[50]"
        "Converted \<lparr>blob_type = ''audio/aac'', blob_data = ''x''\<rparr>"] a
    by simp
qed

text \<open>
  Claim C10. When a new audio source is loaded, from the file picker or from a URL through
  the proxy (a non-empty URL, an ok response and a blob), the chunk list becomes empty and
  the converted-output URL becomes null; the new blob and its object URL are stored, and the
  search query and the target format are left as they were.
\<close>

theorem new_audio_source_resets_transcript:
  "transcription (handleFileUpload (Some f) objectUrl s) = []
   \<and> convertedUrl (handleFileUpload (Some f) objectUrl s) = None
   \<and> audioFile (handleFileUpload (Some f) objectUrl s) = Some f
   \<and> audioUrl (handleFileUpload (Some f) objectUrl s) = objectUrl
   \<and> searchQuery (handleFileUpload (Some f) objectUrl s) = searchQuery s
   \<and> targetFormat (handleFileUpload (Some f) objectUrl s) = targetFormat s
   \<and> (inputUrl s \<noteq> [] \<longrightarrow>
        transcription (fst (handleUrlSubmit (Reply True (Some f)) objectUrl s)) = []
        \<and> convertedUrl (fst (handleUrlSubmit (Reply True (Some f)) objectUrl s)) = None
        \<and> audioFile (fst (handleUrlSubmit (Reply True (Some f)) objectUrl s)) = Some f
        \<and> audioUrl (fst (handleUrlSubmit (Reply True (Some f)) objectUrl s)) = objectUrl
        \<and> searchQuery (fst (handleUrlSubmit (Reply True (Some f)) objectUrl s)) = searchQuery s
        \<and> targetFormat (fst (handleUrlSubmit (Reply True (Some f)) objectUrl s)) = targetFormat s
        \<and> snd (handleUrlSubmit (Reply True (Some f)) objectUrl s) = [])"
  by (simp add: handleFileUpload_def handleUrlSubmit_def)

theorem new_audio_source_resets_transcript_witness:
  "inputUrl (initial_state\<lparr>inputUrl := ''http://a/b.mp3'',
      transcription := [\<lparr>time = ''00:05'', text = ''Hello''\<rparr>], searchQuery := ''he'',
      convertedUrl := Some ''blob:9'', targetFormat := m4a\<rparr>) \<noteq> []
   \<and> fst (handleUrlSubmit (Reply True (Some \<lparr>blob_type = ''audio/mp3'', blob_data = ''ID3''\<rparr>)) ''blob:10''
        (initial_state\<lparr>inputUrl := ''http://a/b.mp3'',
           transcription := [\<lparr>time = ''00:05'', text = ''Hello''\<rparr>], searchQuery := ''he'',
           convertedUrl := Some ''blob:9'', targetFormat := m4a\<rparr>))
     = initial_state\<lparr>inputUrl := ''http://a/b.mp3'', searchQuery := ''he'', targetFormat := m4a,
         audioFile := Some \<lparr>blob_type = ''audio/mp3'', blob_data = ''ID3''\<rparr>, audioUrl := ''blob:10''\<rparr>
   \<and> handleFileUpload (Some \<lparr>blob_type = ''audio/mp3'', blob_data = ''ID3''\<rparr>) ''blob:10''
        (initial_state\<lparr>inputUrl := ''http://a/b.mp3'',
           transcription := [\<lparr>time = ''00:05'', text = ''Hello''\<rparr>], searchQuery := ''he'',
           convertedUrl := Some ''blob:9'', targetFormat := m4a\<rparr>)
     = initial_state\<lparr>inputUrl := ''http://a/b.mp3'', searchQuery := ''he'', targetFormat := m4a,
         audioFile := Some \<lparr>blob_type = ''audio/mp3'', blob_data = ''ID3''\<rparr>, audioUrl := ''blob:10''\<rparr>"
proof -
  let ?s = "initial_state\<lparr>inputUrl := ''http://a/b.mp3'',
      transcription := [\<lparr>time = ''00:05'', text = ''Hello''\<rparr>], searchQuery := ''he'',
      convertedUrl := Some ''blob:9'', targetFormat := m4a\<rparr>"
  let ?f = "\<lparr>blob_type = ''audio/mp3'', blob_data = ''ID3''\<rparr>"
  have u: "inputUrl ?s \<noteq> []" by simp
  have rest: "inputUrl (fst (handleUrlSubmit (Reply True (Some ?f)) ''blob:10'' ?s)) = ''http://a/b.mp3''"
    "isTranscribing (fst (handleUrlSubmit (Reply True (Some ?f)) ''blob:10'' ?s)) = False"
    "transcriptionProgress (fst (handleUrlSubmit (Reply True (Some ?f)) ''blob:10'' ?s)) = 0"
    "isConverting (fst (handleUrlSubmit (Reply True (Some ?f)) ''blob:10'' ?s)) = False"
    "conversionProgress (fst (handleUrlSubmit (Reply True (Some ?f)) ''blob:10'' ?s)) = 0"
    "inputUrl (handleFileUpload (Some ?f) ''blob:10'' ?s) = ''http://a/b.mp3''"
    "isTranscribing (handleFileUpload (Some ?f) ''blob:10'' ?s) = False"
    "transcriptionProgress (handleFileUpload (Some ?f) ''blob:10'' ?s) = 0"
    "isConverting (handleFileUpload (Some ?f) ''blob:10'' ?s) = False"
    "conversionProgress (handleFileUpload (Some ?f) ''blob:10'' ?s) = 0"
    by (simp_all add: handleUrlSubmit_def handleFileUpload_def initial_state_def)
  have eqI: "a = b" if "audioFile a = audioFile b" "audioUrl a = audioUrl b" "inputUrl a = inputUrl b"
    "isTranscribing a = isTranscribing b" "transcriptionProgress a = transcriptionProgress b"
    "transcription a = transcription b" "searchQuery a = searchQuery b"
    "isConverting a = isConverting b" "conversionProgress a = conversionProgress b"
    "convertedUrl a = convertedUrl b" "targetFormat a = targetFormat b" for a b :: app_state
    using that by simp
  note t = new_audio_source_resets_transcript [of ?f "''blob:10''" ?s]
  have 1: "fst (handleUrlSubmit (Reply True (Some ?f)) ''blob:10'' ?s)
     = initial_state\<lparr>inputUrl := ''http://a/b.mp3'', searchQuery := ''he'', targetFormat := m4a,
         audioFile := Some ?f, audioUrl := ''blob:10''\<rparr>"
    using t u rest by (intro eqI) (simp_all add: initial_state_def)
  have 2: "handleFileUpload (Some ?f) ''blob:10'' ?s
     = initial_state\<lparr>inputUrl := ''http://a/b.mp3'', searchQuery := ''he'', targetFormat := m4a,
         audioFile := Some ?f, audioUrl := ''blob:10''\<rparr>"
    using t rest by (intro eqI) (simp_all add: initial_state_def)
  from u 1 2 show ?thesis by blast
qed



section \<open>Which lines start a chunk\<close>

lemma trim_dropWhile: "trim (dropWhile is_space s) = trim s"
  by (simp add: trim_def)

lemma spec_line_is_matched:
  assumes "spec_line_pattern line = Some (t, y)" and "\<forall>c\<in>set line. \<not> is_line_terminator c"
  shows "\<exists>x. timeRegex_exec line = Some (t, x) \<and> trim x = y"
proof -
  from assms(1) obtain remainder where b: "bracketed_timestamp (dropWhile is_space line) = Some (t, remainder)"
    and y: "y = trim remainder"
    by (auto simp: spec_line_pattern_def split: option.splits)
  define ws where "ws = takeWhile is_space line"
  have line: "line = ws @ CHR ''['' # t @ CHR '']'' # remainder" and ts: "is_timestamp t"
    using b takeWhile_dropWhile_id [of is_space line]
    by (simp_all add: bracketed_timestamp_Some ws_def)
  have sp: "\<forall>c\<in>set ws. is_space c" by (auto simp: ws_def dest: set_takeWhileD)
  have left: "\<forall>k<length ws. match_here (drop k line) = None"
  proof (intro allI impI)
    fix k assume k: "k < length ws"
    then obtain c cs where d: "drop k ws = c # cs" by (cases "drop k ws") auto
    then have "c \<in> set ws" by (metis in_set_dropD list.set_intros(1))
    with sp have "c \<noteq> CHR ''[''" by (auto dest: space_not_open)
    moreover have "drop k line = c # cs @ CHR ''['' # t @ CHR '']'' # remainder"
      using k d line by simp
    ultimately show "match_here (drop k line) = None" by (simp add: match_here_not_open)
  qed
  have m: "timeRegex_exec line = Some (t, rest_capture remainder)"
    unfolding timeRegex_exec_Some using line ts left by blast
  have "\<forall>c\<in>set (dropWhile is_space remainder). \<not> is_line_terminator c"
    using assms(2) line by (auto dest: set_dropWhileD)
  then have "rest_capture remainder = dropWhile is_space remainder"
    by (simp add: rest_capture_def takeWhile_eq_all_conv)
  then have "trim (rest_capture remainder) = y" using y by (simp add: trim_dropWhile)
  with m show ?thesis by blast
qed

lemma push_line_no_match_length:
  assumes "timeRegex_exec line = None" "chunks \<noteq> []"
  shows "length (push_line chunks line) = length chunks"
proof (cases "trim line = []")
  case True
  then show ?thesis by (simp add: push_line_blank)
next
  case False
  with assms show ?thesis by (simp add: push_line_continuation)
qed

text \<open>
  Claim C1, as the code has it. A line takes the timestamp branch of the parser exactly when
  a bracketed timestamp \<open>[D{1,2}:D{2}]\<close> or \<open>[D{1,2}:D{2}:D{2}]\<close> stands anywhere in it: what
  comes before the leftmost one need not be white space and is dropped. The branch appends
  one chunk, whose time is that timestamp without its brackets and whose text is what follows
  the closing bracket, without its leading white space, up to the first line terminator
  (a carriage return), with trailing white space kept. A line without such a timestamp adds
  no chunk to a list that has one. A line of the specified form that holds no carriage return
  is emitted with the specified time, and its text, once trimmed, is the trimmed remainder.
\<close>

theorem timestamp_branch_of_the_parser:
  "(timeRegex_exec line = Some (t, x) \<longleftrightarrow>
      (\<exists>before after. line = before @ ''['' @ t @ '']'' @ after \<and> is_timestamp t
         \<and> (\<forall>k<length before. bracketed_timestamp (drop k line) = None)
         \<and> x = takeWhile (\<lambda>c. \<not> is_line_terminator c) (dropWhile is_space after)))
   \<and> (timeRegex_exec line = Some (t, x) \<longrightarrow>
        push_line chunks line = chunks @ [\<lparr>time = t, text = x\<rparr>])
   \<and> (timeRegex_exec line = None \<and> chunks \<noteq> [] \<longrightarrow>
        length (push_line chunks line) = length chunks)
   \<and> (spec_line_pattern line = Some (t, y) \<and> (\<forall>c\<in>set line. \<not> is_line_terminator c) \<longrightarrow>
        (\<exists>x'. timeRegex_exec line = Some (t, x') \<and> trim x' = y))"
proof -
  have 1: "timeRegex_exec line = Some (t, x) \<longleftrightarrow>
      (\<exists>before after. line = before @ ''['' @ t @ '']'' @ after \<and> is_timestamp t
         \<and> (\<forall>k<length before. bracketed_timestamp (drop k line) = None)
         \<and> x = takeWhile (\<lambda>c. \<not> is_line_terminator c) (dropWhile is_space after))"
    unfolding timeRegex_exec_Some match_here_None_iff rest_capture_def by auto
  have 2: "timeRegex_exec line = Some (t, x) \<longrightarrow>
        push_line chunks line = chunks @ [\<lparr>time = t, text = x\<rparr>]"
    by (simp add: push_line_match)
  have 3: "timeRegex_exec line = None \<and> chunks \<noteq> [] \<longrightarrow>
        length (push_line chunks line) = length chunks"
    by (simp add: push_line_no_match_length)
  have 4: "spec_line_pattern line = Some (t, y) \<and> (\<forall>c\<in>set line. \<not> is_line_terminator c) \<longrightarrow>
        (\<exists>x'. timeRegex_exec line = Some (t, x') \<and> trim x' = y)"
    using spec_line_is_matched by blast
  from 1 2 3 4 show ?thesis by blast
qed

theorem timestamp_branch_of_the_parser_witness:
  "timeRegex_exec ''see [00:05] Hello  '' = Some (''00:05'', ''Hello  '')
   \<and> (\<exists>before after. ''see [00:05] Hello  '' = before @ ''['' @ ''00:05'' @ '']'' @ after
         \<and> is_timestamp ''00:05''
         \<and> (\<forall>k<length before. bracketed_timestamp (drop k ''see [00:05] Hello  '') = None)
         \<and> ''Hello  '' = takeWhile (\<lambda>c. \<not> is_line_terminator c) (dropWhile is_space after))
   \<and> push_line [\<lparr>time = ''00:01'', text = ''One''\<rparr>] ''see [00:05] Hello  ''
        = [\<lparr>time = ''00:01'', text = ''One''\<rparr>, \<lparr>time = ''00:05'', text = ''Hello  ''\<rparr>]
   \<and> timeRegex_exec ''and so on'' = None
   \<and> length (push_line [\<lparr>time = ''00:01'', text = ''One''\<rparr>] ''and so on'') = 1
   \<and> spec_line_pattern '' [1:02:03]  Hello '' = Some (''1:02:03'', ''Hello'')
   \<and> (\<exists>x'. timeRegex_exec '' [1:02:03]  Hello '' = Some (''1:02:03'', x') \<and> trim x' = ''Hello'')"
proof -
  have a: "timeRegex_exec ''see [00:05] Hello  '' = Some (''00:05'', ''Hello  '')" by code_simp
  have b: "timeRegex_exec ''and so on'' = None" by code_simp
  have c: "spec_line_pattern '' [1:02:03]  Hello '' = Some (''1:02:03'', ''Hello'')" by code_simp
  have d: "\<forall>c\<in>set '' [1:02:03]  Hello ''. \<not> is_line_terminator c"
    by (simp add: is_line_terminator_def)
  note t1 = timestamp_branch_of_the_parser [of "''see [00:05] Hello  ''" "''00:05''" "''Hello  ''"
      "[\<lparr>time = ''00:01'', text = ''One''\<rparr>]" "[]"]
  note t2 = timestamp_branch_of_the_parser [of "''and so on''" "[]" "[]"
      "[\<lparr>time = ''00:01'', text = ''One''\<rparr>]" "[]"]
  note t3 = timestamp_branch_of_the_parser [of "'' [1:02:03]  Hello ''" "''1:02:03''" "[]" "[]" "''Hello''"]
  have e: "\<exists>before after. ''see [00:05] Hello  '' = before @ ''['' @ ''00:05'' @ '']'' @ after
         \<and> is_timestamp ''00:05''
         \<and> (\<forall>k<length before. bracketed_timestamp (drop k ''see [00:05] Hello  '') = None)
         \<and> ''Hello  '' = takeWhile (\<lambda>c. \<not> is_line_terminator c) (dropWhile is_space after)"
    using t1 a by blast
  have f: "push_line [\<lparr>time = ''00:01'', text = ''One''\<rparr>] ''see [00:05] Hello  ''
        = [\<lparr>time = ''00:01'', text = ''One''\<rparr>, \<lparr>time = ''00:05'', text = ''Hello  ''\<rparr>]"
    using t1 a by simp
  have g: "length (push_line [\<lparr>time = ''00:01'', text = ''One''\<rparr>] ''and so on'') = 1"
    using t2 b by simp
  have h: "\<exists>x'. timeRegex_exec '' [1:02:03]  Hello '' = Some (''1:02:03'', x') \<and> trim x' = ''Hello''"
    using t3 c d by blast
  from a b c e f g h show ?thesis by blast
qed

text \<open>
  Claim C1 says that a line becomes a new chunk exactly when it is white space, a bracketed
  timestamp, white space and a remainder, and that the text is the remainder trimmed. Three
  lines show otherwise: a line with words before the timestamp is not of that form and still
  becomes a new chunk; trailing white space of the remainder stays in the text; and the text
  ends at a carriage return inside the remainder.
\<close>

theorem timestamp_pattern_is_not_anchored:
  "spec_line_pattern ''see [00:05] Hello'' = None
   \<and> push_line [\<lparr>time = ''00:01'', text = ''One''\<rparr>] ''see [00:05] Hello''
        = [\<lparr>time = ''00:01'', text = ''One''\<rparr>, \<lparr>time = ''00:05'', text = ''Hello''\<rparr>]
   \<and> spec_line_pattern ''[00:05] Hello  '' = Some (''00:05'', ''Hello'')
   \<and> push_line [] ''[00:05] Hello  '' = [\<lparr>time = ''00:05'', text = ''Hello  ''\<rparr>]
   \<and> spec_line_pattern (''[00:05] Hi'' @ [CHR 0x0D] @ ''you'') = Some (''00:05'', ''Hi'' @ [CHR 0x0D] @ ''you'')
   \<and> push_line [] (''[00:05] Hi'' @ [CHR 0x0D] @ ''you'') = [\<lparr>time = ''00:05'', text = ''Hi''\<rparr>]"
  by code_simp

end
